theory Spec2Isabelle
  imports Main "HOL-Library.Word"
begin

unbundle bit_operations_syntax

section \<open>CDataFile: a shallow embedding of \<^verbatim>\<open>CDataFile.cpp\<close>\<close>

text \<open>
  The class \<^verbatim>\<open>cdf::CDataFile\<close> keeps an ordered list of sections, each with an
  ordered list of keys, and reads and writes them as an INI-style text file. The
  functions below follow \<^verbatim>\<open>src/CDataFile.cpp\<close> one by one and keep its names.
  A \<^verbatim>\<open>t_Str\<close> (a \<^verbatim>\<open>std::string\<close>) is a \<open>string\<close>, a pointer into a vector is an
  index, a thrown exception or a read through a \<^verbatim>\<open>NULL\<close> pointer is a value of
  \<open>error\<close>. A member function takes the object and returns the new object beside its
  result; \<^verbatim>\<open>Load\<close> and \<^verbatim>\<open>Save\<close> take the file system, too. \<^verbatim>\<open>WriteLn\<close> reads
  behind its buffer when the formatted text does not fit; the bytes that it finds
  there are a parameter \<open>behind\<close> of the functions that write.

  Left out are \<^verbatim>\<open>Report\<close>, which prints a diagnostic and touches nothing else, and
  the accessors for \<^verbatim>\<open>int\<close> and \<^verbatim>\<open>float\<close>, which format and parse numbers. Files are
  read and written byte by byte, as a stream does that translates no line ends.
\<close>

subsection \<open>Constants of the header\<close>

text \<open>
  \<^verbatim>\<open>CDataFile.h\<close> declares the character sets \<^verbatim>\<open>WhiteSpace\<close>, \<^verbatim>\<open>EqualIndicators\<close>
  and \<^verbatim>\<open>CommentIndicators\<close> and the buffer size \<^verbatim>\<open>MAX_BUFFER_LEN\<close>. The functions
  that use them take them as a parameter \<open>cfg\<close>.
\<close>

record config =
  WhiteSpace :: string
  EqualIndicators :: string
  CommentIndicators :: string
  MAX_BUFFER_LEN :: nat

definition default_config :: config where
  \<comment> \<open>Modelled from the spec: the header \<^verbatim>\<open>CDataFile.h\<close> with the values of these
      constants is missing. The spec gives \<^verbatim>\<open>;\<close> as the default comment indicator and
      \<^verbatim>\<open>=\<close> as the default equal indicator; blank, tab, line feed and carriage return
      are the whitespace characters, and the buffer holds 512 bytes.\<close>
  "default_config =
     \<lparr>WhiteSpace = [CHR '' '', CHR 0x09, CHR 0x0A, CHR 0x0D],
      EqualIndicators = ''='',
      CommentIndicators = '';'',
      MAX_BUFFER_LEN = 512\<rparr>"

subsection \<open>Errors\<close>

datatype error =
    OutOfRange      \<comment> \<open>\<^verbatim>\<open>std::out_of_range\<close> thrown by \<^verbatim>\<open>std::string::erase\<close>\<close>
  | NullPointer     \<comment> \<open>a member read through a \<^verbatim>\<open>NULL\<close> pointer\<close>

subsection \<open>The operations of \<^verbatim>\<open>std::string\<close> that the code uses\<close>

text \<open>
  The search functions return a position or \<^verbatim>\<open>npos\<close>, here \<open>None\<close>. The code stores
  the result in an \<^verbatim>\<open>int\<close>, which turns \<^verbatim>\<open>npos\<close> into \<open>-1\<close>; positions are taken to
  fit an \<^verbatim>\<open>int\<close>.
\<close>

definition to_int :: "nat option \<Rightarrow> int" where
  "to_int p = (case p of None \<Rightarrow> - 1 | Some n \<Rightarrow> int n)"

fun find_first_of :: "string \<Rightarrow> string \<Rightarrow> nat option" where
  "find_first_of [] cs = None"
| "find_first_of (c # s) cs =
     (if c \<in> set cs then Some 0 else map_option Suc (find_first_of s cs))"

fun find_first_not_of :: "string \<Rightarrow> string \<Rightarrow> nat option" where
  "find_first_not_of [] cs = None"
| "find_first_not_of (c # s) cs =
     (if c \<notin> set cs then Some 0 else map_option Suc (find_first_not_of s cs))"

definition find_last_of :: "string \<Rightarrow> string \<Rightarrow> nat option" where
  "find_last_of s cs =
     map_option (\<lambda>i. length s - 1 - i) (find_first_of (rev s) cs)"

definition find_last_not_of :: "string \<Rightarrow> string \<Rightarrow> nat option" where
  "find_last_not_of s cs =
     map_option (\<lambda>i. length s - 1 - i) (find_first_not_of (rev s) cs)"

fun find_str :: "string \<Rightarrow> string \<Rightarrow> nat option" where
  "find_str [] pat = (if pat = [] then Some 0 else None)"
| "find_str (c # s) pat =
     (if take (length pat) (c # s) = pat then Some 0
      else map_option Suc (find_str s pat))"

definition erase_in_range :: "string \<Rightarrow> nat \<Rightarrow> nat \<Rightarrow> string" where
  \<comment> \<open>\<^verbatim>\<open>s.erase(pos, n)\<close> where \<open>pos \<le> size\<close>\<close>
  "erase_in_range s pos n = take pos s @ drop (pos + n) s"

definition erase :: "string \<Rightarrow> nat option \<Rightarrow> nat \<Rightarrow> error + string" where
  \<comment> \<open>\<^verbatim>\<open>s.erase(pos, n)\<close> throws when \<open>pos > size\<close>; \<^verbatim>\<open>npos\<close> is beyond every size\<close>
  "erase s pos n =
     (case pos of
        None \<Rightarrow> Inl OutOfRange
      | Some p \<Rightarrow> if p > length s then Inl OutOfRange else Inr (erase_in_range s p n))"

definition c_str :: "string \<Rightarrow> string" where
  \<comment> \<open>what a reader of the C string sees: the bytes before the first NUL\<close>
  "c_str s = takeWhile (\<lambda>c. c \<noteq> CHR 0x00) s"

subsection \<open>Utility functions\<close>

definition Trim :: "config \<Rightarrow> string \<Rightarrow> string" where
  "Trim cfg szStr =
     (let szTrimChars = WhiteSpace cfg @ EqualIndicators cfg;
          nPos = to_int (find_first_not_of szStr szTrimChars);
          szStr1 = (if nPos > 0 then erase_in_range szStr 0 (nat nPos) else szStr);
          nPos1 = to_int (find_last_not_of szStr1 szTrimChars);
          rPos = to_int (find_last_of szStr1 szTrimChars)
      in if rPos > nPos1 \<and> rPos > - 1
         then erase_in_range szStr1 (nat rPos) (length szStr1 - nat rPos)
         else szStr1)"

definition at0 :: "string \<Rightarrow> char" where
  \<comment> \<open>\<^verbatim>\<open>s[0]\<close> of a constant string: its first character, the terminating NUL when
      the string is empty\<close>
  "at0 s = (case s of [] \<Rightarrow> CHR 0x00 | c # _ \<Rightarrow> c)"

definition GetNextWord :: "config \<Rightarrow> string \<Rightarrow> string \<times> string" where
  \<comment> \<open>returns the word and the new contents of \<^verbatim>\<open>CommandLine\<close>\<close>
  "GetNextWord cfg CommandLine =
     (let nPos = to_int (find_first_of CommandLine (EqualIndicators cfg))
      in if nPos > - 1
         then (Trim cfg (take (nat nPos) CommandLine),
               erase_in_range CommandLine 0 (nat nPos + 1))
         else (Trim cfg CommandLine, ''''))"

definition tolower :: "char \<Rightarrow> char" where
  \<comment> \<open>\<^verbatim>\<open>tolower\<close> of the C locale\<close>
  "tolower c =
     (let n = (of_char c :: nat) in if 65 \<le> n \<and> n \<le> 90 then char_of (n + 32) else c)"

fun strcasecmp :: "string \<Rightarrow> string \<Rightarrow> int" where
  "strcasecmp [] [] = 0"
| "strcasecmp [] (y # ys) = - int (of_char (tolower y))"
| "strcasecmp (x # xs) [] = int (of_char (tolower x))"
| "strcasecmp (x # xs) (y # ys) =
     (if tolower x = tolower y then strcasecmp xs ys
      else int (of_char (tolower x)) - int (of_char (tolower y)))"

definition CompareNoCase :: "string \<Rightarrow> string \<Rightarrow> int" where
  "CompareNoCase str1 str2 = strcasecmp (c_str str1) (c_str str2)"

text \<open>
  \<^verbatim>\<open>WriteLn\<close> formats into \<^verbatim>\<open>char buf[MAX_BUFFER_LEN]\<close> and then reads
  \<^verbatim>\<open>buf[nLength]\<close> and writes \<^verbatim>\<open>nLength\<close> bytes from \<^verbatim>\<open>buf\<close>, where \<^verbatim>\<open>nLength\<close> is
  the length of the complete text, which it never compares with the size of the
  buffer. What lies behind the buffer is not in the source, and it may differ from
  call to call: \<open>behind stream i\<close> is the byte at \<^verbatim>\<open>buf + MAX_BUFFER_LEN + i\<close> at the call
  that finds \<open>stream\<close> written so far.
\<close>

type_synonym memory = "string \<Rightarrow> nat \<Rightarrow> char"

definition WriteLn :: "config \<Rightarrow> memory \<Rightarrow> string \<Rightarrow> string \<Rightarrow> string" where
  \<comment> \<open>\<open>stream\<close> is what the stream holds so far, \<open>formatted\<close> the complete output of
      the format string. \<^verbatim>\<open>vsnprintf\<close> stores at most \<^verbatim>\<open>MAX_BUFFER_LEN - 1\<close> bytes of it
      and a NUL in the zeroed buffer and returns the length \<open>nLength\<close> of the complete
      output; \<open>mem\<close> holds the bytes from \<^verbatim>\<open>buf[0]\<close> to \<^verbatim>\<open>buf[nLength]\<close> at least. When
      the text fits, \<^verbatim>\<open>buf[nLength]\<close> is the NUL, and a line feed is appended. The store
      of the line feed, when it goes behind the buffer, is taken to change nothing but
      that byte.\<close>
  "WriteLn cfg behind stream formatted =
     (let nLength = length formatted;
          buf = take (MAX_BUFFER_LEN cfg - 1) formatted;
          mem = buf @ replicate (MAX_BUFFER_LEN cfg - length buf) (CHR 0x00)
                @ map (behind stream) [0..<Suc nLength - MAX_BUFFER_LEN cfg]
      in if mem ! nLength \<noteq> CHR 0x0A \<and> mem ! nLength \<noteq> CHR 0x0D
         then stream @ take nLength mem @ [CHR 0x0A]
         else stream @ take nLength mem)"

fun getline :: "nat \<Rightarrow> string \<Rightarrow> string \<times> string \<times> bool" where
  \<comment> \<open>\<^verbatim>\<open>File.getline(buffer, n)\<close> on the rest of the file: the characters stored, the
      rest of the file afterwards, and whether \<^verbatim>\<open>eof()\<close> or \<^verbatim>\<open>fail()\<close> holds then.
      The tests are made in the order of the standard: end of file, then the line feed
      (extracted, not stored), then a buffer with \<open>n - 1\<close> characters stored.\<close>
  "getline n [] = ([], [], True)"
| "getline n (c # cs) =
     (if c = CHR 0x0A then ([], cs, False)
      else if n \<le> 1 then ([], c # cs, True)
      else (case getline (n - 1) cs of (b, r, f) \<Rightarrow> (c # b, r, f)))"

subsection \<open>The data model\<close>

record t_Key =
  szKey :: string
  szValue :: string
  szComment :: string

text \<open>The comment of a section is \<^verbatim>\<open>szComment\<close> in the source, too; a record field of
  that name exists already.\<close>

record t_Section =
  szName :: string
  szSectionComment :: string
  Keys :: "t_Key list"

definition new_t_Key :: t_Key where
  "new_t_Key = \<lparr>szKey = '''', szValue = '''', szComment = ''''\<rparr>"

definition new_t_Section :: t_Section where
  "new_t_Section = \<lparr>szName = '''', szSectionComment = '''', Keys = []\<rparr>"

record CDataFile =
  m_Sections :: "t_Section list"
  m_szFileName :: string
  m_bDirty :: bool
  m_Flags :: "32 word"

definition AUTOCREATE_SECTIONS :: "32 word" where
  \<comment> \<open>Modelled from the spec: the macro is defined in the missing header
      \<^verbatim>\<open>CDataFile.h\<close>. The spec has two independent policy flags, so the two masks are
      two different bits.\<close>
  "AUTOCREATE_SECTIONS = 2"

definition AUTOCREATE_KEYS :: "32 word" where
  \<comment> \<open>Modelled from the spec: see \<open>AUTOCREATE_SECTIONS\<close>.\<close>
  "AUTOCREATE_KEYS = 4"

text \<open>A file system: the contents of the files that can be opened for reading, and
  the paths that can be opened for writing.\<close>

record filesystem =
  contents :: "string \<rightharpoonup> string"
  writable :: "string \<Rightarrow> bool"

subsection \<open>Lookup\<close>

text \<open>A \<^verbatim>\<open>t_Section*\<close> is the index of the section in \<^verbatim>\<open>m_Sections\<close>, a \<^verbatim>\<open>t_Key*\<close>
  the index of the section and the index of the key in it; \<^verbatim>\<open>NULL\<close> is \<open>None\<close>.\<close>

fun find_section :: "t_Section list \<Rightarrow> string \<Rightarrow> nat option" where
  "find_section [] szSection = None"
| "find_section (s # ss) szSection =
     (if CompareNoCase (szName s) szSection = 0 then Some 0
      else map_option Suc (find_section ss szSection))"

fun find_key :: "t_Key list \<Rightarrow> string \<Rightarrow> nat option" where
  "find_key [] szKey' = None"
| "find_key (k # ks) szKey' =
     (if CompareNoCase (szKey k) szKey' = 0 then Some 0
      else map_option Suc (find_key ks szKey'))"

definition GetSection :: "CDataFile \<Rightarrow> string \<Rightarrow> nat option" where
  "GetSection d szSection = find_section (m_Sections d) szSection"

definition GetKey :: "CDataFile \<Rightarrow> string \<Rightarrow> string \<Rightarrow> (nat \<times> nat) option" where
  "GetKey d szKey' szSection =
     (case GetSection d szSection of
        None \<Rightarrow> None
      | Some i \<Rightarrow>
          (case find_key (Keys (m_Sections d ! i)) szKey' of
             None \<Rightarrow> None
           | Some j \<Rightarrow> Some (i, j)))"

definition HasSection :: "CDataFile \<Rightarrow> string \<Rightarrow> bool" where
  "HasSection d szSection = (GetSection d szSection \<noteq> None)"

definition SectionCount :: "CDataFile \<Rightarrow> nat" where
  "SectionCount d = length (m_Sections d)"

definition KeyCount :: "CDataFile \<Rightarrow> nat" where
  "KeyCount d = sum_list (map (\<lambda>s. length (Keys s)) (m_Sections d))"

subsection \<open>Construction and the dirty flag\<close>

definition Clear :: "CDataFile \<Rightarrow> CDataFile" where
  "Clear d = d\<lparr>m_bDirty := False, m_szFileName := '''', m_Sections := []\<rparr>"

definition SetDirty :: "CDataFile \<Rightarrow> bool \<Rightarrow> CDataFile" where
  "SetDirty d dirty = d\<lparr>m_bDirty := dirty\<rparr>"

definition IsDirty :: "CDataFile \<Rightarrow> bool" where
  "IsDirty d = m_bDirty d"

definition SetFileName :: "CDataFile \<Rightarrow> string \<Rightarrow> CDataFile" where
  "SetFileName d szFileName =
     (if length (m_szFileName d) \<noteq> 0 \<and> CompareNoCase szFileName (m_szFileName d) \<noteq> 0
      then d\<lparr>m_bDirty := True, m_szFileName := szFileName\<rparr>
      else d\<lparr>m_szFileName := szFileName\<rparr>)"

definition CDataFile_new :: CDataFile where
  \<comment> \<open>the default constructor \<^verbatim>\<open>CDataFile()\<close>\<close>
  "CDataFile_new =
     \<lparr>m_Sections = [new_t_Section], m_szFileName = '''', m_bDirty = False,
      m_Flags = AUTOCREATE_SECTIONS OR AUTOCREATE_KEYS\<rparr>"

subsection \<open>Mutation\<close>

definition CreateSection :: "CDataFile \<Rightarrow> string \<Rightarrow> string \<Rightarrow> bool \<times> CDataFile" where
  "CreateSection d szSection szComment' =
     (case GetSection d szSection of
        Some i \<Rightarrow> (False, d)
      | None \<Rightarrow>
          (True, d\<lparr>m_Sections := m_Sections d @
                      [new_t_Section\<lparr>szName := szSection, szSectionComment := szComment'\<rparr>],
                    m_bDirty := True\<rparr>))"

definition CreateSection_KeyList ::
  "CDataFile \<Rightarrow> string \<Rightarrow> string \<Rightarrow> t_Key list \<Rightarrow> bool \<times> CDataFile" where
  \<comment> \<open>the overload \<^verbatim>\<open>CreateSection(szSection, szComment, Keys)\<close>\<close>
  "CreateSection_KeyList d szSection szComment' Keys' =
     (case CreateSection d szSection szComment' of
        (False, d1) \<Rightarrow> (False, d1)
      | (True, d1) \<Rightarrow>
          (case GetSection d1 szSection of
             None \<Rightarrow> (False, d1)
           | Some i \<Rightarrow>
               (let pSection = m_Sections d1 ! i;
                    filled = pSection
                      \<lparr>szName := szSection,
                       Keys := Keys pSection @
                         map (\<lambda>k. new_t_Key\<lparr>szComment := szComment k, szKey := szKey k,
                                             szValue := szValue k\<rparr>) Keys'\<rparr>;
                    secs = (m_Sections d1)[i := filled]
                in (True, d1\<lparr>m_Sections := secs @ [secs ! i], m_bDirty := True\<rparr>))))"

definition SetValue_key ::
  "CDataFile \<Rightarrow> (nat \<times> nat) option \<Rightarrow> nat option \<Rightarrow> string \<Rightarrow> string \<Rightarrow> string
     \<Rightarrow> bool \<times> CDataFile" where
  \<comment> \<open>\<^verbatim>\<open>SetValue\<close> from its sanity check on, with the two pointers it holds then\<close>
  "SetValue_key d pKey pSection szKey' szValue' szComment' =
     (case pSection of
        None \<Rightarrow> (False, d)
      | Some i \<Rightarrow>
          if pKey = None \<and> m_Flags d AND AUTOCREATE_KEYS \<noteq> 0
          then (let sec = m_Sections d ! i;
                    k = new_t_Key\<lparr>szKey := szKey', szValue := szValue', szComment := szComment'\<rparr>
                in (True, d\<lparr>m_bDirty := True,
                            m_Sections := (m_Sections d)[i := sec\<lparr>Keys := Keys sec @ [k]\<rparr>]\<rparr>))
          else (case pKey of
                  Some (si, kj) \<Rightarrow>
                    (let sec = m_Sections d ! si;
                         k = (Keys sec ! kj)\<lparr>szValue := szValue', szComment := szComment'\<rparr>
                     in (True, d\<lparr>m_bDirty := True,
                                 m_Sections := (m_Sections d)[si := sec\<lparr>Keys := (Keys sec)[kj := k]\<rparr>]\<rparr>))
                | None \<Rightarrow> (False, d)))"

definition SetValue ::
  "CDataFile \<Rightarrow> string \<Rightarrow> string \<Rightarrow> string \<Rightarrow> string \<Rightarrow> bool \<times> CDataFile" where
  "SetValue d szKey' szValue' szComment' szSection =
     (let pKey = GetKey d szKey' szSection;
          pSection = GetSection d szSection
      in case pSection of
           None \<Rightarrow>
             if m_Flags d AND AUTOCREATE_SECTIONS = 0 then (False, d)
             else (case CreateSection d szSection '''' of
                     (False, d1) \<Rightarrow> (False, d1)
                   | (True, d1) \<Rightarrow>
                       SetValue_key d1 pKey (GetSection d1 szSection) szKey' szValue' szComment')
         | Some i \<Rightarrow> SetValue_key d pKey pSection szKey' szValue' szComment')"

definition SetBool ::
  "CDataFile \<Rightarrow> string \<Rightarrow> bool \<Rightarrow> string \<Rightarrow> string \<Rightarrow> bool \<times> CDataFile" where
  "SetBool d szKey' bValue szComment' szSection =
     SetValue d szKey' (if bValue then ''True'' else ''False'') szComment' szSection"

definition CreateKey ::
  "CDataFile \<Rightarrow> string \<Rightarrow> string \<Rightarrow> string \<Rightarrow> string \<Rightarrow> bool \<times> CDataFile" where
  "CreateKey d szKey' szValue' szComment' szSection =
     (let bAutoKey = (m_Flags d AND AUTOCREATE_KEYS = AUTOCREATE_KEYS);
          d1 = d\<lparr>m_Flags := m_Flags d OR AUTOCREATE_KEYS\<rparr>
      in case SetValue d1 szKey' szValue' szComment' szSection of
           (bReturn, d2) \<Rightarrow>
             (bReturn,
              if \<not> bAutoKey then d2\<lparr>m_Flags := m_Flags d2 AND NOT AUTOCREATE_KEYS\<rparr> else d2))"

definition SetKeyComment :: "CDataFile \<Rightarrow> string \<Rightarrow> string \<Rightarrow> string \<Rightarrow> bool \<times> CDataFile" where
  "SetKeyComment d szKey' szComment' szSection =
     (case GetSection d szSection of
        None \<Rightarrow> (False, d)
      | Some i \<Rightarrow>
          (let sec = m_Sections d ! i
           in case find_key (Keys sec) szKey' of
                None \<Rightarrow> (False, d)
              | Some j \<Rightarrow>
                  (True, d\<lparr>m_Sections := (m_Sections d)
                              [i := sec\<lparr>Keys := (Keys sec)[j := (Keys sec ! j)\<lparr>szComment := szComment'\<rparr>]\<rparr>],
                            m_bDirty := True\<rparr>)))"

definition SetSectionComment :: "CDataFile \<Rightarrow> string \<Rightarrow> string \<Rightarrow> bool \<times> CDataFile" where
  "SetSectionComment d szSection szComment' =
     (case find_section (m_Sections d) szSection of
        None \<Rightarrow> (False, d)
      | Some i \<Rightarrow>
          (True, d\<lparr>m_Sections := (m_Sections d)
                      [i := (m_Sections d ! i)\<lparr>szSectionComment := szComment'\<rparr>],
                    m_bDirty := True\<rparr>))"

definition DeleteSection :: "CDataFile \<Rightarrow> string \<Rightarrow> bool \<times> CDataFile" where
  "DeleteSection d szSection =
     (case find_section (m_Sections d) szSection of
        None \<Rightarrow> (False, d)
      | Some i \<Rightarrow>
          (True, d\<lparr>m_Sections := take i (m_Sections d) @ drop (Suc i) (m_Sections d)\<rparr>))"

definition DeleteKey :: "CDataFile \<Rightarrow> string \<Rightarrow> string \<Rightarrow> bool \<times> CDataFile" where
  "DeleteKey d szKey' szFromSection =
     (case GetSection d szFromSection of
        None \<Rightarrow> (False, d)
      | Some i \<Rightarrow>
          (let sec = m_Sections d ! i
           in case find_key (Keys sec) szKey' of
                None \<Rightarrow> (False, d)
              | Some j \<Rightarrow>
                  (True, d\<lparr>m_Sections := (m_Sections d)
                              [i := sec\<lparr>Keys := take j (Keys sec) @ drop (Suc j) (Keys sec)\<rparr>]\<rparr>)))"

subsection \<open>Reading values\<close>

text \<open>The getters return \<^verbatim>\<open>false\<close> and leave \<^verbatim>\<open>ret\<close> alone (\<open>None\<close>), or return
  \<^verbatim>\<open>true\<close> and store a value in \<^verbatim>\<open>ret\<close> (\<open>Some\<close>).\<close>

definition GetValue :: "CDataFile \<Rightarrow> string \<Rightarrow> string \<Rightarrow> string option" where
  "GetValue d szKey' szSection =
     (case GetKey d szKey' szSection of
        None \<Rightarrow> None
      | Some (i, j) \<Rightarrow> Some (szValue (Keys (m_Sections d ! i) ! j)))"

definition GetString :: "CDataFile \<Rightarrow> string \<Rightarrow> string \<Rightarrow> string option" where
  "GetString d szKey' szSection = GetValue d szKey' szSection"

definition GetBool :: "CDataFile \<Rightarrow> string \<Rightarrow> string \<Rightarrow> bool option" where
  "GetBool d szKey' szSection =
     (case GetValue d szKey' szSection of
        None \<Rightarrow> None
      | Some szValue' \<Rightarrow>
          Some (find_str szValue' ''1'' = Some 0
                \<or> CompareNoCase szValue' ''true'' = 0
                \<or> CompareNoCase szValue' ''yes'' = 0))"

subsection \<open>Save\<close>

definition CommentStr :: "config \<Rightarrow> string \<Rightarrow> string" where
  "CommentStr cfg szComment' =
     (let szComment1 = Trim cfg szComment'
      in if length szComment1 = 0 then szComment1
         else (if find_first_of szComment1 (CommentIndicators cfg) \<noteq> Some 0
               then [at0 (CommentIndicators cfg)] @ '' ''
               else '''') @ szComment1)"

text \<open>The two loops of \<^verbatim>\<open>Save\<close>; \<open>File\<close> is what has been written so far. A
  \<^verbatim>\<open>%s\<close> prints the C string of its argument.\<close>

fun Save_keys :: "config \<Rightarrow> memory \<Rightarrow> t_Key list \<Rightarrow> string \<Rightarrow> string" where
  "Save_keys cfg behind [] File = File"
| "Save_keys cfg behind (Key # ks) File =
     (if length (szKey Key) > 0
      then Save_keys cfg behind ks
             (WriteLn cfg behind File
                ((if length (szComment Key) > 0 then [CHR 0x0A] else '''')
                 @ c_str (CommentStr cfg (szComment Key))
                 @ (if length (szComment Key) > 0 then [CHR 0x0A] else '''')
                 @ c_str (szKey Key)
                 @ [at0 (EqualIndicators cfg)]
                 @ c_str (szValue Key)))
      else Save_keys cfg behind ks File)"

fun Save_sections :: "config \<Rightarrow> memory \<Rightarrow> t_Section list \<Rightarrow> string \<Rightarrow> string" where
  "Save_sections cfg behind [] File = File"
| "Save_sections cfg behind (Section # ss) File =
     (let bWroteComment = (length (szSectionComment Section) > 0);
          File1 = (if bWroteComment
                   then WriteLn cfg behind File
                          ([CHR 0x0A] @ c_str (CommentStr cfg (szSectionComment Section)))
                   else File);
          File2 = (if length (szName Section) > 0
                   then WriteLn cfg behind File1
                          ((if bWroteComment then '''' else [CHR 0x0A])
                           @ ''['' @ c_str (szName Section) @ '']'')
                   else File1)
      in Save_sections cfg behind ss (Save_keys cfg behind (Keys Section) File2))"

definition Save ::
  "config \<Rightarrow> memory \<Rightarrow> filesystem \<Rightarrow> CDataFile \<Rightarrow> bool \<times> CDataFile \<times> filesystem" where
  \<comment> \<open>the file is opened with \<^verbatim>\<open>std::ios::trunc\<close>, so what is written replaces its
      contents\<close>
  "Save cfg behind fs d =
     (if KeyCount d = 0 \<and> SectionCount d = 0 then (False, d, fs)
      else if length (m_szFileName d) = 0 then (False, d, fs)
      else if \<not> writable fs (c_str (m_szFileName d)) then (False, d, fs)
      else (True, d\<lparr>m_bDirty := False\<rparr>,
            fs\<lparr>contents := (contents fs)
                 (c_str (m_szFileName d) \<mapsto> Save_sections cfg behind (m_Sections d) '''')\<rparr>))"

definition destructor :: "config \<Rightarrow> memory \<Rightarrow> filesystem \<Rightarrow> CDataFile \<Rightarrow> filesystem" where
  \<comment> \<open>\<^verbatim>\<open>~CDataFile()\<close>: what the file system is afterwards\<close>
  "destructor cfg behind fs d =
     (if m_bDirty d then (case Save cfg behind fs d of (ok, d1, fs1) \<Rightarrow> fs1) else fs)"

subsection \<open>Load\<close>

text \<open>
  The body of the loop of \<^verbatim>\<open>Load\<close> after the line has been read and trimmed. The
  state is the object, \<^verbatim>\<open>szComment\<close> and \<^verbatim>\<open>pSection\<close>. \<^verbatim>\<open>erase\<close> throws when the
  line has no \<^verbatim>\<open>]\<close>; \<^verbatim>\<open>pSection->szName\<close> reads through \<^verbatim>\<open>pSection\<close>, which is
  \<^verbatim>\<open>NULL\<close> when the object had no section of the empty name.
\<close>

definition Load_line ::
  "config \<Rightarrow> string \<Rightarrow> CDataFile \<times> string \<times> nat option
     \<Rightarrow> error + (CDataFile \<times> string \<times> nat option)" where
  "Load_line cfg szLine st =
     (case st of (d, szComment', pSection) \<Rightarrow>
        if find_first_of szLine (CommentIndicators cfg) = Some 0
        then Inr (d, szComment' @ [CHR 0x0A] @ szLine, pSection)
        else if find_first_of szLine ''['' = Some 0
        then (let szLine1 = erase_in_range szLine 0 1
              in case erase szLine1 (find_last_of szLine1 '']'') 1 of
                   Inl e \<Rightarrow> Inl e
                 | Inr szLine2 \<Rightarrow>
                     (case CreateSection d szLine2 szComment' of
                        (ok, d1) \<Rightarrow> Inr (d1, '''', GetSection d1 szLine2)))
        else if length szLine > 0
        then (case GetNextWord cfg szLine of
                (szKey', szValue') \<Rightarrow>
                  if length szKey' > 0
                  then (case pSection of
                          None \<Rightarrow> Inl NullPointer
                        | Some i \<Rightarrow>
                            (case SetValue d szKey' szValue' szComment'
                                    (szName (m_Sections d ! i)) of
                               (ok, d1) \<Rightarrow> Inr (d1, '''', pSection)))
                  else Inr st)
        else Inr st)"

lemma getline_consumes:
  "getline n s = (b, r, False) \<Longrightarrow> length r < length s"
proof (induction s arbitrary: n b)
  case Nil
  then show ?case by simp
next
  case (Cons c cs)
  show ?case
  proof (cases "c = CHR 0x0A")
    case True
    with Cons.prems show ?thesis by simp
  next
    case False
    show ?thesis
    proof (cases "n \<le> 1")
      case True
      with False Cons.prems show ?thesis by simp
    next
      case big: False
      obtain b' r' f' where g: "getline (n - 1) cs = (b', r', f')"
        by (cases "getline (n - 1) cs") auto
      with False big Cons.prems have "r' = r" "f' = False" by auto
      with g Cons.IH [of "n - 1" b'] show ?thesis by simp
    qed
  qed
qed

function Load_loop ::
  "config \<Rightarrow> string \<Rightarrow> CDataFile \<times> string \<times> nat option \<Rightarrow> error + CDataFile" where
  "Load_loop cfg File st =
     (case getline (MAX_BUFFER_LEN cfg) File of
        (buffer, File1, bDone) \<Rightarrow>
          (case Load_line cfg (Trim cfg (c_str buffer)) st of
             Inl e \<Rightarrow> Inl e
           | Inr st1 \<Rightarrow> if bDone then Inr (fst st1) else Load_loop cfg File1 st1))"
  by pat_completeness auto
termination
  by (relation "measure (\<lambda>(cfg, File, st). length File)")
    (auto dest: getline_consumes [OF sym])

declare Load_loop.simps [simp del]

definition Load ::
  "config \<Rightarrow> filesystem \<Rightarrow> CDataFile \<Rightarrow> string \<Rightarrow> error + (bool \<times> CDataFile)" where
  "Load cfg fs d szFileName =
     (case contents fs (c_str szFileName) of
        None \<Rightarrow> Inr (False, d)
      | Some File \<Rightarrow>
          (let bAutoKey = (m_Flags d AND AUTOCREATE_KEYS = AUTOCREATE_KEYS);
               bAutoSec = (m_Flags d AND AUTOCREATE_SECTIONS = AUTOCREATE_SECTIONS);
               pSection = GetSection d '''';
               d1 = d\<lparr>m_Flags := m_Flags d OR AUTOCREATE_KEYS OR AUTOCREATE_SECTIONS\<rparr>
           in case Load_loop cfg File (d1, '''', pSection) of
                Inl e \<Rightarrow> Inl e
              | Inr d2 \<Rightarrow>
                  (let d3 = (if \<not> bAutoKey
                             then d2\<lparr>m_Flags := m_Flags d2 AND NOT AUTOCREATE_KEYS\<rparr> else d2);
                       d4 = (if \<not> bAutoSec
                             then d3\<lparr>m_Flags := m_Flags d3 AND NOT AUTOCREATE_SECTIONS\<rparr> else d3)
                   in Inr (True, d4))))"

definition CDataFile_open :: "config \<Rightarrow> filesystem \<Rightarrow> string \<Rightarrow> error + CDataFile" where
  \<comment> \<open>the constructor \<^verbatim>\<open>CDataFile(szFileName)\<close>; it sets \<^verbatim>\<open>m_bDirty\<close> after the load only\<close>
  "CDataFile_open cfg fs szFileName =
     (let d = \<lparr>m_Sections = [new_t_Section], m_szFileName = szFileName, m_bDirty = False,
               m_Flags = AUTOCREATE_SECTIONS OR AUTOCREATE_KEYS\<rparr>
      in case Load cfg fs d (m_szFileName d) of
           Inl e \<Rightarrow> Inl e
         | Inr (ok, d1) \<Rightarrow> Inr (d1\<lparr>m_bDirty := False\<rparr>))"

subsection \<open>Objects that survive a round trip through a file\<close>

text \<open>
  The predicates below describe the objects for which saving and loading again is
  shown to give back the same file. They are not part of the source.
\<close>

definition szTrimChars :: "config \<Rightarrow> string" where
  \<comment> \<open>the local variable of \<^verbatim>\<open>Trim\<close>\<close>
  "szTrimChars cfg = WhiteSpace cfg @ EqualIndicators cfg"

definition nocase :: "string \<Rightarrow> string" where
  \<comment> \<open>what \<^verbatim>\<open>CompareNoCase\<close> compares: the C string in lower case\<close>
  "nocase s = map tolower (c_str s)"

definition cfg_ok :: "config \<Rightarrow> bool" where
  \<comment> \<open>what the round trip needs of the constants of the header: a line feed is
      whitespace, there is an equal indicator and a comment indicator, and the brackets
      and the first comment indicator are not trimmed away\<close>
  "cfg_ok cfg =
     (CHR 0x0A \<in> set (WhiteSpace cfg)
      \<and> EqualIndicators cfg \<noteq> []
      \<and> at0 (EqualIndicators cfg) \<noteq> CHR 0x00
      \<and> at0 (EqualIndicators cfg) \<noteq> CHR 0x0A
      \<and> CommentIndicators cfg \<noteq> []
      \<and> at0 (CommentIndicators cfg) \<noteq> CHR 0x00
      \<and> at0 (CommentIndicators cfg) \<notin> set (szTrimChars cfg)
      \<and> CHR ''['' \<notin> set (szTrimChars cfg)
      \<and> CHR '']'' \<notin> set (szTrimChars cfg)
      \<and> CHR ''['' \<notin> set (CommentIndicators cfg))"

definition comment_line :: "config \<Rightarrow> string \<Rightarrow> bool" where
  \<comment> \<open>a line that \<^verbatim>\<open>Load\<close> takes for a comment and \<^verbatim>\<open>Trim\<close> leaves alone: it starts
      with a comment indicator, does not start or end with a trim character, and has
      no NUL\<close>
  "comment_line cfg R =
     (R \<noteq> [] \<and> hd R \<in> set (CommentIndicators cfg) \<and> hd R \<notin> set (szTrimChars cfg)
      \<and> last R \<notin> set (szTrimChars cfg) \<and> CHR 0x00 \<notin> set R \<and> CHR 0x0A \<notin> set R)"

fun split_lines :: "string \<Rightarrow> string list" where
  \<comment> \<open>the lines of a text, which the line feeds separate\<close>
  "split_lines [] = [[]]"
| "split_lines (c # s) =
     (if c = CHR 0x0A then [] # split_lines s
      else (case split_lines s of [] \<Rightarrow> [[c]] | l # ls \<Rightarrow> (c # l) # ls))"

definition comment_text :: "config \<Rightarrow> string \<Rightarrow> bool" where
  "comment_text cfg R = (\<forall>l\<in>set (split_lines R). comment_line cfg l)"

definition plain_comment :: "config \<Rightarrow> string \<Rightarrow> bool" where
  \<comment> \<open>empty, or written by \<^verbatim>\<open>CommentStr\<close> as comment lines only\<close>
  "plain_comment cfg c = (c = [] \<or> comment_text cfg (CommentStr cfg c))"

definition plain_key :: "config \<Rightarrow> t_Key \<Rightarrow> bool" where
  \<comment> \<open>the name is not empty, has no NUL, line feed or equal indicator, does not start
      or end with a trim character, and does not start like a comment or a section; the
      value has no NUL or line feed and does not end with a trim character\<close>
  "plain_key cfg k =
     (szKey k \<noteq> []
      \<and> CHR 0x00 \<notin> set (szKey k) \<and> CHR 0x0A \<notin> set (szKey k)
      \<and> set (szKey k) \<inter> set (EqualIndicators cfg) = {}
      \<and> hd (szKey k) \<notin> set (szTrimChars cfg)
      \<and> last (szKey k) \<notin> set (szTrimChars cfg)
      \<and> hd (szKey k) \<notin> set (CommentIndicators cfg)
      \<and> hd (szKey k) \<noteq> CHR ''[''
      \<and> CHR 0x00 \<notin> set (szValue k) \<and> CHR 0x0A \<notin> set (szValue k)
      \<and> (szValue k = [] \<or> last (szValue k) \<notin> set (szTrimChars cfg))
      \<and> plain_comment cfg (szComment k))"

definition plain_keys :: "config \<Rightarrow> t_Key list \<Rightarrow> bool" where
  "plain_keys cfg ks =
     ((\<forall>k\<in>set ks. plain_key cfg k) \<and> distinct (map (\<lambda>k. nocase (szKey k)) ks))"

definition plain_section :: "config \<Rightarrow> t_Section \<Rightarrow> bool" where
  "plain_section cfg s =
     (szName s \<noteq> []
      \<and> CHR 0x00 \<notin> set (szName s) \<and> CHR 0x0A \<notin> set (szName s)
      \<and> plain_comment cfg (szSectionComment s)
      \<and> plain_keys cfg (Keys s))"

definition plain_doc :: "config \<Rightarrow> CDataFile \<Rightarrow> bool" where
  \<comment> \<open>the default section comes first and has no comment; the other sections have
      names, different up to case\<close>
  "plain_doc cfg d =
     (case m_Sections d of
        [] \<Rightarrow> False
      | s0 # ss \<Rightarrow>
          szName s0 = [] \<and> szSectionComment s0 = [] \<and> plain_keys cfg (Keys s0)
          \<and> (\<forall>s\<in>set ss. plain_section cfg s)
          \<and> distinct (map (\<lambda>s. nocase (szName s)) ss))"

text \<open>
  \<^verbatim>\<open>WriteLn\<close> formats into a buffer of \<^verbatim>\<open>MAX_BUFFER_LEN\<close> bytes, and \<^verbatim>\<open>Load\<close> reads
  the lines into a buffer of that size. \<open>key_fmt\<close> is the text that \<^verbatim>\<open>Save\<close> formats
  for a key, its comment included; \<open>section_texts\<close> are the texts that it formats for a
  section, one for each call of \<^verbatim>\<open>WriteLn\<close>: the comment of the section, its name in
  brackets, and its keys. An object fits when each of these texts is shorter than the
  buffer.
\<close>

definition key_fmt :: "config \<Rightarrow> t_Key \<Rightarrow> string" where
  "key_fmt cfg Key =
     (if length (szComment Key) > 0 then [CHR 0x0A] else '''')
     @ c_str (CommentStr cfg (szComment Key))
     @ (if length (szComment Key) > 0 then [CHR 0x0A] else '''')
     @ c_str (szKey Key)
     @ [at0 (EqualIndicators cfg)]
     @ c_str (szValue Key)"

definition section_texts :: "config \<Rightarrow> t_Section \<Rightarrow> string list" where
  "section_texts cfg Section =
     (if length (szSectionComment Section) > 0
      then [[CHR 0x0A] @ c_str (CommentStr cfg (szSectionComment Section))] else [])
     @ (if length (szName Section) > 0
        then [(if length (szSectionComment Section) > 0 then '''' else [CHR 0x0A])
              @ ''['' @ c_str (szName Section) @ '']''] else [])
     @ map (key_fmt cfg) (filter (\<lambda>Key. length (szKey Key) > 0) (Keys Section))"

definition fits :: "config \<Rightarrow> CDataFile \<Rightarrow> bool" where
  "fits cfg d =
     (\<forall>s\<in>set (m_Sections d). \<forall>t\<in>set (section_texts cfg s). length t < MAX_BUFFER_LEN cfg)"

text \<open>What \<^verbatim>\<open>Load\<close> makes of a comment, a key and a section that \<^verbatim>\<open>Save\<close> has
  written: the comment comes back as a line feed and the comment line.\<close>

definition parsed_comment :: "config \<Rightarrow> string \<Rightarrow> string" where
  "parsed_comment cfg c = (if c = [] then [] else CHR 0x0A # CommentStr cfg c)"

definition parsed_key :: "config \<Rightarrow> t_Key \<Rightarrow> t_Key" where
  "parsed_key cfg k = k\<lparr>szComment := parsed_comment cfg (szComment k)\<rparr>"

definition parsed_section :: "config \<Rightarrow> t_Section \<Rightarrow> t_Section" where
  "parsed_section cfg s =
     s\<lparr>szSectionComment := parsed_comment cfg (szSectionComment s),
       Keys := map (parsed_key cfg) (Keys s)\<rparr>"

text \<open>Notions of the proof. \<open>join_lines\<close> puts lines together again; \<open>hdr_text\<close> is
  what \<^verbatim>\<open>Save\<close> writes for the head of a section; \<open>put_key\<close>, \<open>put_keys\<close> and \<open>put_section\<close> are the object after \<^verbatim>\<open>Load\<close> has
  read them; \<open>load_inv\<close> is what holds of the object and of \<^verbatim>\<open>pSection\<close> while \<^verbatim>\<open>Load\<close>
  reads.\<close>

fun join_lines :: "string list \<Rightarrow> string" where
  "join_lines [] = []"
| "join_lines [l] = l"
| "join_lines (l # l' # ls) = l @ CHR 0x0A # join_lines (l' # ls)"

definition hdr_text :: "config \<Rightarrow> t_Section \<Rightarrow> string" where
  "hdr_text cfg s =
     (if szSectionComment s \<noteq> []
      then CHR 0x0A # CommentStr cfg (szSectionComment s) @ [CHR 0x0A] else [])
     @ (if szSectionComment s \<noteq> [] then [] else [CHR 0x0A])
     @ ''['' @ szName s @ '']'' @ [CHR 0x0A]"

definition load_inv :: "CDataFile \<Rightarrow> nat \<Rightarrow> bool" where
  "load_inv d i =
     (i < length (m_Sections d)
      \<and> find_section (m_Sections d) (szName (m_Sections d ! i)) = Some i
      \<and> m_Flags d AND AUTOCREATE_KEYS \<noteq> 0)"

definition put_key :: "CDataFile \<Rightarrow> nat \<Rightarrow> t_Key \<Rightarrow> CDataFile" where
  "put_key d i k =
     d\<lparr>m_bDirty := True,
       m_Sections := (m_Sections d)
         [i := (m_Sections d ! i)\<lparr>Keys := Keys (m_Sections d ! i) @ [k]\<rparr>]\<rparr>"

definition put_keys :: "CDataFile \<Rightarrow> nat \<Rightarrow> t_Key list \<Rightarrow> CDataFile" where
  "put_keys d i ks = foldl (\<lambda>d k. put_key d i k) d ks"

definition put_section :: "CDataFile \<Rightarrow> string \<Rightarrow> string \<Rightarrow> CDataFile" where
  "put_section d n c =
     d\<lparr>m_Sections := m_Sections d @ [new_t_Section\<lparr>szName := n, szSectionComment := c\<rparr>],
       m_bDirty := True\<rparr>"

subsection \<open>Example objects\<close>

definition example_multiline :: CDataFile where
  \<comment> \<open>built with \<^verbatim>\<open>SetValue\<close> and \<^verbatim>\<open>SetFileName\<close>: one key with a comment of two lines\<close>
  "example_multiline =
     SetFileName
       (snd (SetValue CDataFile_new ''k'' ''v'' (''a'' @ [CHR 0x0A] @ ''b'') '''')) ''f''"

definition example_plain :: CDataFile where
  "example_plain =
     \<lparr>m_Sections =
        [\<lparr>szName = '''', szSectionComment = '''',
          Keys = [\<lparr>szKey = ''Name'', szValue = ''Joe User'', szComment = ''''\<rparr>]\<rparr>,
         \<lparr>szName = ''ServerSettings'',
          szSectionComment =
            '';'' @ [CHR 0x0A] @ ''; Settings unique to this server'' @ [CHR 0x0A] @ '';'',
          Keys = [\<lparr>szKey = ''Port'', szValue = ''1200'', szComment = ''the port''\<rparr>,
                  \<lparr>szKey = ''IP_Address'', szValue = ''127.0.0.1'', szComment = ''''\<rparr>]\<rparr>],
      m_szFileName = ''f'', m_bDirty = True,
      m_Flags = AUTOCREATE_SECTIONS OR AUTOCREATE_KEYS\<rparr>"

definition example_plain_text :: string where
  \<comment> \<open>the file that \<^verbatim>\<open>Save\<close> writes for \<open>example_plain\<close>\<close>
  "example_plain_text =
     ''Name=Joe User'' @ [CHR 0x0A]
     @ [CHR 0x0A] @ '';'' @ [CHR 0x0A] @ ''; Settings unique to this server'' @ [CHR 0x0A]
     @ '';'' @ [CHR 0x0A]
     @ ''[ServerSettings]'' @ [CHR 0x0A]
     @ [CHR 0x0A] @ ''; the port'' @ [CHR 0x0A]
     @ ''Port=1200'' @ [CHR 0x0A]
     @ ''IP_Address=127.0.0.1'' @ [CHR 0x0A]"

definition example_fs :: "string \<Rightarrow> filesystem" where
  \<comment> \<open>a file system whose only file is \<^verbatim>\<open>f\<close>, with the given contents\<close>
  "example_fs File = \<lparr>contents = [''f'' \<mapsto> File], writable = (\<lambda>p. True)\<rparr>"

definition example_policy_off :: CDataFile where
  \<comment> \<open>a section \<^verbatim>\<open>ExistingSection\<close> with one key, and \<^verbatim>\<open>AUTOCREATE_KEYS\<close> switched off\<close>
  "example_policy_off =
     \<lparr>m_Sections =
        [new_t_Section,
         \<lparr>szName = ''ExistingSection'', szSectionComment = '''',
          Keys = [\<lparr>szKey = ''Port'', szValue = ''1200'', szComment = ''''\<rparr>]\<rparr>],
      m_szFileName = '''', m_bDirty = False, m_Flags = AUTOCREATE_SECTIONS\<rparr>"

definition example_bool :: CDataFile where
  \<comment> \<open>the key \<^verbatim>\<open>Debug\<close> is the second key of the second section\<close>
  "example_bool =
     CDataFile_new
       \<lparr>m_Sections :=
          [new_t_Section\<lparr>Keys := [\<lparr>szKey = ''Debug'', szValue = ''0'', szComment = ''''\<rparr>]\<rparr>,
           \<lparr>szName = ''Options'', szSectionComment = '''',
            Keys = [\<lparr>szKey = ''Level'', szValue = ''3'', szComment = ''''\<rparr>,
                    \<lparr>szKey = ''Debug'', szValue = ''YES'', szComment = ''''\<rparr>,
                    \<lparr>szKey = ''Trace'', szValue = ''no'', szComment = ''''\<rparr>]\<rparr>,
           \<lparr>szName = ''Other'', szSectionComment = '''',
            Keys = [\<lparr>szKey = ''Debug'', szValue = ''false'', szComment = ''''\<rparr>]\<rparr>]\<rparr>"

definition example_long :: CDataFile where
  \<comment> \<open>one key with a value of 600 bytes\<close>
  "example_long =
     \<lparr>m_Sections =
        [new_t_Section
           \<lparr>Keys := [\<lparr>szKey = ''k'', szValue = replicate 600 (CHR ''v''), szComment = ''''\<rparr>]\<rparr>],
      m_szFileName = ''f'', m_bDirty = True,
      m_Flags = AUTOCREATE_SECTIONS OR AUTOCREATE_KEYS\<rparr>"

definition zero_memory :: memory where
  \<comment> \<open>zero bytes behind the buffer, for the examples\<close>
  "zero_memory = (\<lambda>stream i. CHR 0x00)"

definition example_dirty :: CDataFile where
  "example_dirty =
     \<lparr>m_Sections =
        [new_t_Section\<lparr>Keys := [\<lparr>szKey = ''k'', szValue = ''v'', szComment = ''''\<rparr>]\<rparr>],
      m_szFileName = ''f'', m_bDirty = True,
      m_Flags = AUTOCREATE_SECTIONS OR AUTOCREATE_KEYS\<rparr>"

section \<open>Properties\<close>

subsection \<open>Case-insensitive comparison\<close>

lemma c_str_no_NUL: "CHR 0x00 \<notin> set (c_str s)"
  by (auto simp: c_str_def dest: set_takeWhileD)

lemma of_char_eq_0: "(of_char c :: nat) = 0 \<longleftrightarrow> c = CHR 0x00"
proof -
  have "(of_char c :: nat) = of_char (CHR 0x00) \<longleftrightarrow> c = CHR 0x00"
    by (rule of_char_eq_iff)
  then show ?thesis by simp
qed

lemma tolower_NUL: "tolower c = CHR 0x00 \<longleftrightarrow> c = CHR 0x00"
proof (cases "65 \<le> (of_char c :: nat) \<and> (of_char c :: nat) \<le> 90")
  case True
  then have "(of_char (tolower c) :: nat) = of_char c + 32"
    by (simp add: tolower_def of_char_of)
  with True have "(of_char (tolower c) :: nat) \<noteq> 0" "(of_char c :: nat) \<noteq> 0"
    by simp_all
  then show ?thesis by (simp add: of_char_eq_0)
next
  case False
  then show ?thesis by (auto simp: tolower_def)
qed

lemma strcasecmp_0:
  "CHR 0x00 \<notin> set xs \<Longrightarrow> CHR 0x00 \<notin> set ys \<Longrightarrow>
   strcasecmp xs ys = 0 \<longleftrightarrow> map tolower xs = map tolower ys"
proof (induction xs ys rule: strcasecmp.induct)
  case 1
  then show ?case by simp
next
  case (2 y ys)
  then show ?case by (auto simp: of_char_eq_0 tolower_NUL)
next
  case (3 x xs)
  then show ?case by (auto simp: of_char_eq_0 tolower_NUL)
next
  case (4 x xs y ys)
  then show ?case by auto
qed

lemma CompareNoCase_0:
  "CompareNoCase a b = 0 \<longleftrightarrow> map tolower (c_str a) = map tolower (c_str b)"
  by (simp add: CompareNoCase_def strcasecmp_0 c_str_no_NUL)

lemma CompareNoCase_nocase: "CompareNoCase a b = 0 \<longleftrightarrow> nocase a = nocase b"
  by (simp add: CompareNoCase_0 nocase_def)

lemma find_section_first:
  assumes "\<forall>x\<in>set ss1. nocase (szName x) \<noteq> nocase n" "nocase (szName s) = nocase n"
  shows "find_section (ss1 @ s # ss2) n = Some (length ss1)"
  using assms by (induction ss1) (simp_all add: CompareNoCase_nocase)

lemma find_key_first:
  assumes "\<forall>x\<in>set ks1. nocase (szKey x) \<noteq> nocase n" "nocase (szKey k) = nocase n"
  shows "find_key (ks1 @ k # ks2) n = Some (length ks1)"
  using assms by (induction ks1) (simp_all add: CompareNoCase_nocase)

lemma find_str_1: "find_str v ''1'' = Some 0 \<longleftrightarrow> take 1 v = ''1''"
  by (cases v) auto

lemma find_key_None:
  "find_key ks k = None \<longleftrightarrow> (\<forall>x\<in>set ks. CompareNoCase (szKey x) k \<noteq> 0)"
  by (induction ks) auto

subsection \<open>Pointers stay within the lists\<close>

text \<open>The index that a lookup returns is an index of the list, so the model reads
  \<open>m_Sections d ! i\<close> and \<open>Keys s ! j\<close> within the lists only. In \<^verbatim>\<open>Load\<close> the pointer
  \<^verbatim>\<open>pSection\<close> stays valid from line to line: sections are only appended.\<close>

lemma find_key_less: "find_key ks k = Some j \<Longrightarrow> j < length ks"
  by (induction ks arbitrary: j) (auto split: if_splits)

lemma find_section_less: "find_section ss n = Some i \<Longrightarrow> i < length ss"
  by (induction ss arbitrary: i) (auto split: if_splits)

lemma GetSection_less: "GetSection d n = Some i \<Longrightarrow> i < length (m_Sections d)"
  by (simp add: GetSection_def find_section_less)

lemma GetKey_less:
  "GetKey d k n = Some (i, j) \<Longrightarrow>
   i < length (m_Sections d) \<and> j < length (Keys (m_Sections d ! i))"
  by (auto simp: GetKey_def GetSection_less find_key_less split: option.splits)

lemma SetValue_key_length:
  "length (m_Sections (snd (SetValue_key d pKey pSection k v c))) = length (m_Sections d)"
  by (simp add: SetValue_key_def Let_def split: option.splits prod.splits)

lemma CreateSection_length:
  "length (m_Sections d) \<le> length (m_Sections (snd (CreateSection d n c)))"
  by (simp add: CreateSection_def split: option.splits)

lemma SetValue_length:
  "length (m_Sections d) \<le> length (m_Sections (snd (SetValue d k v c n)))"
proof (cases "GetSection d n")
  case None
  show ?thesis
  proof (cases "CreateSection d n []")
    case (Pair ok d1)
    with CreateSection_length [of d n "[]"] have "length (m_Sections d) \<le> length (m_Sections d1)"
      by simp
    with None Pair SetValue_key_length [of d1] show ?thesis
      by (cases ok) (simp_all add: SetValue_def Let_def)
  qed
next
  case (Some i)
  with SetValue_key_length [of d] show ?thesis
    by (simp add: SetValue_def Let_def)
qed

lemma Load_line_pSection:
  assumes "Load_line cfg l (d, a, p) = Inr (d', a', p')"
    and "\<forall>i. p = Some i \<longrightarrow> i < length (m_Sections d)"
  shows "\<forall>i. p' = Some i \<longrightarrow> i < length (m_Sections d')"
proof (cases "find_first_of l (CommentIndicators cfg) = Some 0")
  case True
  with assms show ?thesis by (simp add: Load_line_def)
next
  case c: False
  show ?thesis
  proof (cases "find_first_of l ''['' = Some 0")
    case True
    with c assms(1) show ?thesis
      by (auto simp: Load_line_def Let_def GetSection_less split: sum.splits prod.splits)
  next
    case False
    show ?thesis
    proof (cases "GetNextWord cfg l")
      case (Pair k v)
      show ?thesis
      proof (cases p)
        case None
        with c False Pair assms show ?thesis
          by (auto simp: Load_line_def split: if_splits)
      next
        case (Some i)
        with assms(2) have "i < length (m_Sections d)" by simp
        with SetValue_length [of d k v a "szName (m_Sections d ! i)"]
        have "i < length (m_Sections (snd (SetValue d k v a (szName (m_Sections d ! i)))))"
          by simp
        with c False Pair Some assms show ?thesis
          by (auto simp: Load_line_def split: if_splits prod.splits)
      qed
    qed
  qed
qed

lemmas eval_defs = Load_def Load_loop.simps Load_line_def Trim_def c_str_def to_int_def
  find_last_of_def find_last_not_of_def erase_in_range_def erase_def GetSection_def GetKey_def
  new_t_Section_def new_t_Key_def CompareNoCase_def default_config_def CDataFile_new_def
  CreateSection_def CreateSection_KeyList_def SetValue_def SetValue_key_def GetNextWord_def
  AUTOCREATE_KEYS_def AUTOCREATE_SECTIONS_def DeleteSection_def DeleteKey_def KeyCount_def
  CDataFile_open_def tolower_def example_fs_def Let_def

subsection \<open>The default section\<close>

text \<open>
  Claim C2: after every sequence of public operations, \<^verbatim>\<open>DeleteSection\<close> with the empty
  name among them, the object has exactly one section of the empty name. The comment
  in \<^verbatim>\<open>GetKey\<close> relies on it (``this should always return a valid section''), and
  \<^verbatim>\<open>Load\<close> reads through the pointer to that section unchecked. \<^verbatim>\<open>DeleteSection\<close> has
  no guard for the empty name: on a newly constructed object it erases the default
  section and leaves no section at all.
\<close>

theorem DeleteSection_removes_default_section:
  "DeleteSection CDataFile_new '''' = (True, CDataFile_new\<lparr>m_Sections := []\<rparr>)"
  by (simp add: eval_defs)

subsection \<open>Unique section names\<close>

text \<open>
  Claim C3: no operation yields two sections of the same name up to case, and creating
  a section under an existing name fails. The overload of \<^verbatim>\<open>CreateSection\<close> with a
  key list calls the plain \<^verbatim>\<open>CreateSection\<close>, which appends the section, fills it
  through the pointer, and then appends \<^verbatim>\<open>*pSection\<close> a second time: the new section
  is in the list twice.
\<close>

theorem CreateSection_KeyList_duplicates_section:
  "fst (CreateSection_KeyList CDataFile_new ''A'' '''' []) \<and>
   map szName (m_Sections (snd (CreateSection_KeyList CDataFile_new ''A'' '''' [])))
     = ['''', ''A'', ''A'']"
  by (simp add: eval_defs)

subsection \<open>The dirty flag\<close>

text \<open>
  Claim C4: every accepted mutation sets \<^verbatim>\<open>m_bDirty\<close>, a successful deletion of a key
  or of a section included. \<^verbatim>\<open>SetValue\<close>, \<^verbatim>\<open>CreateSection\<close> and the two comment
  setters do set it; \<^verbatim>\<open>DeleteKey\<close> and \<^verbatim>\<open>DeleteSection\<close> do not. An object opened
  from a file with the line \<^verbatim>\<open>k=v\<close> is clean and has one key; \<^verbatim>\<open>DeleteKey\<close> removes
  the key, returns \<^verbatim>\<open>true\<close> and leaves the object clean, so the destructor will not
  save the deletion.
\<close>

theorem DeleteKey_keeps_dirty_false:
  "(case CDataFile_open default_config (example_fs (''k=v'' @ [CHR 0x0A])) ''f'' of
      Inl e \<Rightarrow> False
    | Inr d \<Rightarrow>
        KeyCount d = 1 \<and> \<not> m_bDirty d \<and>
        (case DeleteKey d ''k'' '''' of (ok, d1) \<Rightarrow> ok \<and> KeyCount d1 = 0 \<and> \<not> m_bDirty d1))"
  by (simp add: eval_defs)

subsection \<open>Exceptions\<close>

text \<open>
  Claim C5: every public operation returns normally; \<^verbatim>\<open>Load\<close> of a file with a line
  that starts with \<^verbatim>\<open>[\<close> and has no \<^verbatim>\<open>]\<close> completes and returns a boolean. For such a
  line \<^verbatim>\<open>find_last_of(']')\<close> is \<^verbatim>\<open>npos\<close>, and \<^verbatim>\<open>erase(npos, 1)\<close> throws
  \<^verbatim>\<open>std::out_of_range\<close>, which nothing catches.
\<close>

theorem Load_throws_on_unclosed_header:
  "Load default_config (example_fs (''[abc'' @ [CHR 0x0A])) CDataFile_new ''f'' = Inl OutOfRange"
  by (simp add: eval_defs)

subsection \<open>Trim\<close>

text \<open>
  Claim C6: \<^verbatim>\<open>Trim\<close> removes all leading and all trailing characters of the trim set
  (whitespace and equal indicators). On the right the code erases from \<^verbatim>\<open>rPos\<close>, the
  position of the last trim character of the string, which is its last character: one
  trailing character goes, the others stay. Of the two blanks that end \<open>''a  ''\<close> one
  is left.
\<close>

theorem Trim_leaves_trailing_blank:
  "Trim default_config ''a  '' = ''a ''"
  by (simp add: Trim_def default_config_def to_int_def find_last_of_def
      find_last_not_of_def erase_in_range_def)

subsection \<open>Comment lines in Load\<close>

text \<open>
  Claim C7, as the spec states it: a comment line is appended to the pending comment
  with a line feed before it only when the pending comment is not empty, so that the
  file \<^verbatim>\<open>;c1\<close>, empty line, \<^verbatim>\<open>Key=V\<close> gives \<^verbatim>\<open>Key\<close> the comment \<^verbatim>\<open>c1\<close> up to the
  indicator. The code appends \<^verbatim>\<open>"\n"\<close> and then the line, whatever \<^verbatim>\<open>szComment\<close>
  holds: from the empty pending comment the line \<^verbatim>\<open>;c1\<close> gives a line feed followed
  by \<^verbatim>\<open>;c1\<close>, and this is the comment that \<^verbatim>\<open>Key\<close> gets.
\<close>

theorem Load_comment_line_counterexample:
  "Load_line default_config '';c1'' (CDataFile_new, '''', Some 0)
     \<noteq> Inr (CDataFile_new, '';c1'', Some 0) \<and>
   (case Load default_config (example_fs ('';c1'' @ [CHR 0x0A, CHR 0x0A] @ ''Key=V'' @ [CHR 0x0A]))
           CDataFile_new ''f'' of
      Inl e \<Rightarrow> False
    | Inr (ok, d) \<Rightarrow> szComment (Keys (m_Sections d ! 0) ! 0) \<notin> {''c1'', '';c1'', ''; c1''})"
  by (simp add: eval_defs)

text \<open>
  Claim C7, amended: every comment line is appended to the pending comment after a
  line feed, whether the pending comment is empty or not; parsing the file \<^verbatim>\<open>;c1\<close>,
  empty line, \<^verbatim>\<open>Key=V\<close> gives \<^verbatim>\<open>Key\<close> the comment that consists of a line feed and
  \<^verbatim>\<open>;c1\<close>, so the comment stays with the key across the empty line.
\<close>

theorem Load_comment_line_after_newline:
  "(find_first_of szLine (CommentIndicators cfg) = Some 0 \<longrightarrow>
      Load_line cfg szLine (d, szComment', pSection)
        = Inr (d, szComment' @ [CHR 0x0A] @ szLine, pSection)) \<and>
   Load default_config (example_fs ('';c1'' @ [CHR 0x0A, CHR 0x0A] @ ''Key=V'' @ [CHR 0x0A]))
       CDataFile_new ''f''
     = Inr (True, CDataFile_new
              \<lparr>m_bDirty := True,
               m_Sections :=
                 [new_t_Section
                    \<lparr>Keys := [\<lparr>szKey = ''Key'', szValue = ''V'',
                               szComment = [CHR 0x0A] @ '';c1''\<rparr>]\<rparr>]\<rparr>)"
  by (simp add: eval_defs)

theorem Load_comment_line_after_newline_witness:
  "Load_line default_config '';c1'' (CDataFile_new, '''', Some 0)
     = Inr (CDataFile_new, [CHR 0x0A] @ '';c1'', Some 0)"
proof -
  have h: "find_first_of '';c1'' (CommentIndicators default_config) = Some 0"
    by (simp add: default_config_def)
  from Load_comment_line_after_newline
    [where szLine = "'';c1''" and cfg = default_config and d = CDataFile_new
       and szComment' = "''''" and pSection = "Some 0", THEN conjunct1, THEN mp, OF h]
  show ?thesis by simp
qed

subsection \<open>SetValue without AUTOCREATE_KEYS\<close>

text \<open>
  Claim C8: with \<^verbatim>\<open>AUTOCREATE_KEYS\<close> off, \<^verbatim>\<open>SetValue\<close> on an existing section without a
  key of that name (up to case) returns \<^verbatim>\<open>false\<close> and leaves the object as it is, so
  \<^verbatim>\<open>KeyCount\<close> is the same before and after.
\<close>

theorem SetValue_without_AutoCreateKeys:
  assumes "GetSection d szSection = Some i"
    and "\<forall>k\<in>set (Keys (m_Sections d ! i)). CompareNoCase (szKey k) key \<noteq> 0"
    and "m_Flags d AND AUTOCREATE_KEYS = 0"
  shows "SetValue d key v c szSection = (False, d) \<and>
         KeyCount (snd (SetValue d key v c szSection)) = KeyCount d"
proof -
  from assms(2) have "find_key (Keys (m_Sections d ! i)) key = None"
    by (simp add: find_key_None)
  with assms(1) have "GetKey d key szSection = None"
    by (simp add: GetKey_def)
  with assms(1,3) show ?thesis
    by (simp add: SetValue_def SetValue_key_def)
qed

theorem SetValue_without_AutoCreateKeys_witness:
  "SetValue example_policy_off ''NewKey'' ''v'' '''' ''ExistingSection''
     = (False, example_policy_off) \<and>
   KeyCount (snd (SetValue example_policy_off ''NewKey'' ''v'' '''' ''ExistingSection'')) = 1"
proof -
  have s: "GetSection example_policy_off ''ExistingSection'' = Some 1"
    by code_simp
  have k: "\<forall>k\<in>set (Keys (m_Sections example_policy_off ! 1)).
             CompareNoCase (szKey k) ''NewKey'' \<noteq> 0"
    by code_simp
  have f: "m_Flags example_policy_off AND AUTOCREATE_KEYS = 0"
    by (simp add: example_policy_off_def AUTOCREATE_KEYS_def AUTOCREATE_SECTIONS_def)
  have n: "KeyCount example_policy_off = 1"
    by code_simp
  show ?thesis
    using SetValue_without_AutoCreateKeys [OF s k f, of "''v''" "''''"] by (simp add: n)
qed

subsection \<open>GetBool\<close>

text \<open>
  Claim C9: \<^verbatim>\<open>GetBool\<close> on an existing key always succeeds, and its result is true
  exactly when the stored value starts with \<^verbatim>\<open>1\<close> or is, up to case, \<^verbatim>\<open>true\<close> or
  \<^verbatim>\<open>yes\<close>. The key that \<^verbatim>\<open>GetBool\<close> reads is the first key of the given name in the
  first section of the given name, wherever they stand in the lists; names are equal
  when their C strings are equal in lower case, and the value is compared in the same
  way.
\<close>

theorem GetBool_of_existing_key:
  assumes "m_Sections d = ss1 @ s # ss2"
    and "\<forall>x\<in>set ss1. nocase (szName x) \<noteq> nocase szSection"
    and "nocase (szName s) = nocase szSection"
    and "Keys s = ks1 @ k # ks2"
    and "\<forall>x\<in>set ks1. nocase (szKey x) \<noteq> nocase key"
    and "nocase (szKey k) = nocase key"
  shows "GetBool d key szSection =
           Some (take 1 (szValue k) = ''1''
                 \<or> map tolower (c_str (szValue k)) = ''true''
                 \<or> map tolower (c_str (szValue k)) = ''yes'')"
proof -
  have t: "map tolower (c_str ''true'') = ''true''" "map tolower (c_str ''yes'') = ''yes''"
    by (simp_all add: c_str_def tolower_def)
  from assms(1-3) have i: "GetSection d szSection = Some (length ss1)"
    by (simp add: GetSection_def find_section_first)
  from assms(1) have s: "m_Sections d ! length ss1 = s"
    by simp
  from assms(4-6) have "find_key (Keys s) key = Some (length ks1)"
    by (simp add: find_key_first)
  with i s have "GetKey d key szSection = Some (length ss1, length ks1)"
    by (simp add: GetKey_def)
  moreover from assms(4) have "Keys s ! length ks1 = k"
    by simp
  ultimately show ?thesis
    using s by (simp add: GetBool_def GetValue_def find_str_1 CompareNoCase_0 t)
qed

theorem GetBool_of_existing_key_witness:
  "GetBool example_bool ''debug'' ''OPTIONS'' = Some True \<and>
   GetBool example_bool ''TRACE'' ''options'' = Some False"
proof -
  let ?s0 = "new_t_Section\<lparr>Keys := [\<lparr>szKey = ''Debug'', szValue = ''0'', szComment = ''''\<rparr>]\<rparr>"
  let ?k1 = "\<lparr>szKey = ''Level'', szValue = ''3'', szComment = ''''\<rparr>"
  let ?k2 = "\<lparr>szKey = ''Debug'', szValue = ''YES'', szComment = ''''\<rparr>"
  let ?k3 = "\<lparr>szKey = ''Trace'', szValue = ''no'', szComment = ''''\<rparr>"
  let ?s1 = "\<lparr>szName = ''Options'', szSectionComment = '''', Keys = [?k1, ?k2, ?k3]\<rparr>"
  let ?s2 = "\<lparr>szName = ''Other'', szSectionComment = '''',
             Keys = [\<lparr>szKey = ''Debug'', szValue = ''false'', szComment = ''''\<rparr>]\<rparr>"
  have a: "m_Sections example_bool = [?s0] @ ?s1 # [?s2]"
    by (simp add: example_bool_def)
  have b: "\<forall>x\<in>set [?s0]. nocase (szName x) \<noteq> nocase ''OPTIONS''"
    by code_simp
  have c: "nocase (szName ?s1) = nocase ''OPTIONS''"
    by code_simp
  have e: "Keys ?s1 = [?k1] @ ?k2 # [?k3]"
    by simp
  have f: "\<forall>x\<in>set [?k1]. nocase (szKey x) \<noteq> nocase ''debug''"
    by code_simp
  have g: "nocase (szKey ?k2) = nocase ''debug''"
    by code_simp
  have l: "map tolower (c_str ''YES'') = ''yes''" "map tolower (c_str ''no'') = ''no''"
    by code_simp+
  have b': "\<forall>x\<in>set [?s0]. nocase (szName x) \<noteq> nocase ''options''"
    by code_simp
  have c': "nocase (szName ?s1) = nocase ''options''"
    by code_simp
  have e': "Keys ?s1 = [?k1, ?k2] @ ?k3 # []"
    by simp
  have f': "\<forall>x\<in>set [?k1, ?k2]. nocase (szKey x) \<noteq> nocase ''TRACE''"
    by code_simp
  have g': "nocase (szKey ?k3) = nocase ''TRACE''"
    by code_simp
  show ?thesis
    using GetBool_of_existing_key [OF a b c e f g] GetBool_of_existing_key [OF a b' c' e' f' g']
    by (simp add: l)
qed

subsection \<open>The destructor\<close>

text \<open>
  Claim C10: destroying an object whose dirty flag is set calls \<^verbatim>\<open>Save\<close>, which
  writes to the stored file name; destroying an object whose dirty flag is clear
  writes nothing. When the object has a section, a file name and a file that can be
  opened, the file holds what \<^verbatim>\<open>Save\<close> writes for the sections.
\<close>

theorem destructor_saves_when_dirty:
  "(m_bDirty d \<longrightarrow>
      destructor cfg behind fs d = snd (snd (Save cfg behind fs d))) \<and>
   (m_bDirty d \<and> m_Sections d \<noteq> [] \<and> m_szFileName d \<noteq> '''' \<and>
    writable fs (c_str (m_szFileName d)) \<longrightarrow>
      destructor cfg behind fs d =
        fs\<lparr>contents := (contents fs)
             (c_str (m_szFileName d) \<mapsto> Save_sections cfg behind (m_Sections d) '''')\<rparr>) \<and>
   (\<not> m_bDirty d \<longrightarrow> destructor cfg behind fs d = fs)"
  by (simp add: destructor_def Save_def SectionCount_def)

theorem destructor_saves_when_dirty_witness:
  "destructor default_config zero_memory (example_fs ''old'') example_dirty
     = example_fs (''k=v'' @ [CHR 0x0A]) \<and>
   destructor default_config zero_memory (example_fs ''old'') (example_dirty\<lparr>m_bDirty := False\<rparr>)
     = example_fs ''old''"
proof -
  have a: "m_bDirty example_dirty \<and> m_Sections example_dirty \<noteq> [] \<and>
      m_szFileName example_dirty \<noteq> '''' \<and>
      writable (example_fs ''old'') (c_str (m_szFileName example_dirty))"
    by (simp add: example_dirty_def example_fs_def)
  have w: "Save_sections default_config zero_memory (m_Sections example_dirty) ''''
             = ''k=v'' @ [CHR 0x0A]"
    by (simp add: example_dirty_def new_t_Section_def c_str_def WriteLn_def Let_def nth_append
        default_config_def at0_def CommentStr_def Trim_def to_int_def find_last_of_def
        find_last_not_of_def)
  have b: "\<not> m_bDirty (example_dirty\<lparr>m_bDirty := False\<rparr>)"
    by simp
  have c: "c_str (m_szFileName example_dirty) = ''f''"
    by (simp add: example_dirty_def c_str_def)
  from destructor_saves_when_dirty
    [where d = example_dirty and fs = "example_fs ''old''" and cfg = default_config
       and behind = zero_memory, THEN conjunct2, THEN conjunct1, THEN mp, OF a]
  have "destructor default_config zero_memory (example_fs ''old'') example_dirty
          = example_fs ''old''\<lparr>contents := (contents (example_fs ''old''))(''f'' \<mapsto> ''k=v'' @ [CHR 0x0A])\<rparr>"
    by (simp add: c w)
  moreover have "example_fs ''old''\<lparr>contents := (contents (example_fs ''old''))(''f'' \<mapsto> ''k=v'' @ [CHR 0x0A])\<rparr>
          = example_fs (''k=v'' @ [CHR 0x0A])"
    by (simp add: example_fs_def)
  moreover from destructor_saves_when_dirty
    [where d = "example_dirty\<lparr>m_bDirty := False\<rparr>" and cfg = default_config
       and behind = zero_memory and fs = "example_fs ''old''",
     THEN conjunct2, THEN conjunct2, THEN mp, OF b]
  have "destructor default_config zero_memory (example_fs ''old'') (example_dirty\<lparr>m_bDirty := False\<rparr>)
          = example_fs ''old''"
    by simp
  ultimately show ?thesis by simp
qed

section \<open>The round trip through a file\<close>

subsection \<open>What Trim does to a string that does not end with a trim character\<close>

lemma find_first_not_of_takeWhile: "find_first_not_of s cs =
   (if \<forall>x\<in>set s. x \<in> set cs then None else Some (length (takeWhile (\<lambda>x. x \<in> set cs) s)))"
  by (induction s) auto

lemma find_first_of_takeWhile: "find_first_of s cs =
   (if \<forall>x\<in>set s. x \<notin> set cs then None else Some (length (takeWhile (\<lambda>x. x \<notin> set cs) s)))"
  by (induction s) auto

lemma Trim_Nil: "Trim cfg [] = []"
  by (simp add: Trim_def to_int_def find_last_of_def find_last_not_of_def)

lemma Trim_right_stays:
  assumes "s \<noteq> []" "last s \<notin> set cs"
  shows "\<not> (to_int (find_last_of s cs) > to_int (find_last_not_of s cs))"
proof -
  obtain x r where r: "rev s = x # r" "x \<notin> set cs"
    using assms by (cases "rev s") (auto simp: last_rev [symmetric] hd_rev)
  then have a: "find_last_not_of s cs = Some (length s - 1)"
    by (simp add: find_last_not_of_def)
  have "to_int (find_last_of s cs) \<le> int (length s - 1)"
    using r by (cases "find_first_of r cs") (auto simp: find_last_of_def to_int_def)
  with a show ?thesis by (simp add: to_int_def)
qed

lemma Trim_unfold:
  "Trim cfg s =
     (let s1 = (if to_int (find_first_not_of s (szTrimChars cfg)) > 0
                then erase_in_range s 0 (nat (to_int (find_first_not_of s (szTrimChars cfg))))
                else s)
      in if to_int (find_last_of s1 (szTrimChars cfg)) > to_int (find_last_not_of s1 (szTrimChars cfg))
            \<and> to_int (find_last_of s1 (szTrimChars cfg)) > - 1
         then erase_in_range s1 (nat (to_int (find_last_of s1 (szTrimChars cfg))))
                (length s1 - nat (to_int (find_last_of s1 (szTrimChars cfg))))
         else s1)"
  by (simp add: Trim_def szTrimChars_def Let_def)

lemma Trim_plain:
  assumes "s \<noteq> []" "last s \<notin> set (szTrimChars cfg)"
  shows "Trim cfg s = dropWhile (\<lambda>x. x \<in> set (szTrimChars cfg)) s"
proof -
  let ?T = "szTrimChars cfg"
  let ?d = "dropWhile (\<lambda>x. x \<in> set ?T) s"
  from assms have ex: "\<not> (\<forall>x\<in>set s. x \<in> set ?T)"
    using last_in_set by blast
  then have f: "find_first_not_of s ?T = Some (length (takeWhile (\<lambda>x. x \<in> set ?T) s))"
    by (simp add: find_first_not_of_takeWhile)
  have d: "(if to_int (find_first_not_of s ?T) > 0
            then erase_in_range s 0 (nat (to_int (find_first_not_of s ?T))) else s) = ?d"
    by (simp add: f to_int_def erase_in_range_def dropWhile_eq_drop)
  from ex have ne: "?d \<noteq> []" by (simp add: dropWhile_eq_Nil_conv)
  then have "last ?d = last s"
    by (metis (no_types, lifting) last_appendR takeWhile_dropWhile_id)
  with assms ne have r: "\<not> (to_int (find_last_of ?d ?T) > to_int (find_last_not_of ?d ?T))"
    by (intro Trim_right_stays) auto
  show ?thesis
    unfolding Trim_unfold d using r by (simp add: Let_def)
qed

lemma Trim_id:
  assumes "s \<noteq> []" "hd s \<notin> set (szTrimChars cfg)" "last s \<notin> set (szTrimChars cfg)"
  shows "Trim cfg s = s"
  using assms by (cases s) (simp_all add: Trim_plain)

lemma Trim_key_only:
  assumes "n \<noteq> []" "hd n \<notin> set (szTrimChars cfg)" "last n \<notin> set (szTrimChars cfg)"
    and "e \<in> set (szTrimChars cfg)"
  shows "Trim cfg (n @ [e]) = n"
proof -
  let ?T = "szTrimChars cfg"
  let ?s = "n @ [e]"
  from assms have f: "find_first_not_of ?s ?T = Some 0"
    by (cases n) auto
  obtain x r where r: "rev n = x # r" "x \<notin> set ?T"
    using assms by (cases "rev n") (auto simp: last_rev [symmetric] hd_rev)
  from r assms have a: "find_last_not_of ?s ?T = Some (length n - 1)"
    by (simp add: find_last_not_of_def)
  from assms have b: "find_last_of ?s ?T = Some (length n)"
    by (simp add: find_last_of_def)
  from assms have "length n > 0" by simp
  then show ?thesis
    by (simp add: Trim_unfold f a b to_int_def erase_in_range_def Let_def)
qed

subsection \<open>Reading one line\<close>

lemma c_str_id: "CHR 0x00 \<notin> set s \<Longrightarrow> c_str s = s"
  by (auto simp: c_str_def takeWhile_eq_all_conv)

lemma getline_line:
  "CHR 0x0A \<notin> set l \<Longrightarrow> length l < n \<Longrightarrow> getline n (l @ CHR 0x0A # rest) = (l, rest, False)"
proof (induction l arbitrary: n)
  case Nil
  then show ?case by simp
next
  case (Cons c l)
  then have "getline (n - 1) (l @ CHR 0x0A # rest) = (l, rest, False)"
    by (intro Cons.IH) auto
  with Cons.prems show ?case by auto
qed

lemma Load_line_Nil: "Load_line cfg [] st = Inr st"
  by (cases st) (simp add: Load_line_def)

lemma Load_loop_Nil: "Load_loop cfg [] st = Inr (fst st)"
  by (simp add: Load_loop.simps [of cfg "[]"] c_str_def Trim_Nil Load_line_Nil)

lemma Load_loop_line:
  assumes "CHR 0x0A \<notin> set l" "CHR 0x00 \<notin> set l" "length l < MAX_BUFFER_LEN cfg"
  shows "Load_loop cfg (l @ CHR 0x0A # rest) st =
           (case Load_line cfg (Trim cfg l) st of
              Inl e \<Rightarrow> Inl e
            | Inr st1 \<Rightarrow> Load_loop cfg rest st1)"
  using assms
  by (simp add: Load_loop.simps [of cfg "l @ CHR 0x0A # rest"] getline_line c_str_id
      split: sum.splits)

lemma Load_loop_blank:
  assumes "0 < MAX_BUFFER_LEN cfg"
  shows "Load_loop cfg (CHR 0x0A # rest) st = Load_loop cfg rest st"
  using Load_loop_line [of "[]" cfg rest st] assms by (simp add: Trim_Nil Load_line_Nil)

subsection \<open>Comment lines\<close>

lemma find_first_of_hd:
  "s \<noteq> [] \<Longrightarrow> find_first_of s cs = Some 0 \<longleftrightarrow> hd s \<in> set cs"
  by (cases s) auto

lemma at0_in: "s \<noteq> [] \<Longrightarrow> at0 s \<in> set s"
  by (cases s) (auto simp: at0_def)

lemma Trim_comment_line: "comment_line cfg R \<Longrightarrow> Trim cfg R = R"
  by (simp add: comment_line_def Trim_id)

lemma Load_line_comment:
  "comment_line cfg R \<Longrightarrow>
   Load_line cfg R (d, acc, p) = Inr (d, acc @ CHR 0x0A # R, p)"
  by (simp add: Load_line_def comment_line_def find_first_of_hd)

lemma split_lines_ne: "split_lines s \<noteq> []"
  by (induction s) (auto split: list.splits)

lemma split_lines_one: "CHR 0x0A \<notin> set s \<Longrightarrow> split_lines s = [s]"
  by (induction s) auto

lemma join_split: "join_lines (split_lines s) = s"
proof (induction s)
  case Nil
  then show ?case by simp
next
  case (Cons c s)
  obtain l ls where s: "split_lines s = l # ls"
    using split_lines_ne [of s] by (cases "split_lines s") auto
  with Cons show ?case
    by (cases ls) auto
qed

lemma length_split_lines: "l \<in> set (split_lines s) \<Longrightarrow> length l \<le> length s"
proof (induction s arbitrary: l)
  case Nil
  then show ?case by simp
next
  case (Cons c s)
  obtain l' ls where s: "split_lines s = l' # ls"
    using split_lines_ne [of s] by (cases "split_lines s") auto
  with Cons.IH [of l'] Cons.IH [of l] Cons.prems show ?case
    by (auto split: if_splits)
qed

lemma comment_lines_facts:
  assumes "ls \<noteq> []" "\<forall>l\<in>set ls. comment_line cfg l"
  shows "join_lines ls \<noteq> [] \<and> hd (join_lines ls) \<in> set (CommentIndicators cfg)
         \<and> hd (join_lines ls) \<notin> set (szTrimChars cfg)
         \<and> last (join_lines ls) \<notin> set (szTrimChars cfg)
         \<and> CHR 0x00 \<notin> set (join_lines ls)"
  using assms
proof (induction ls rule: join_lines.induct)
  case 1
  then show ?case by simp
next
  case (2 l)
  then show ?case by (simp add: comment_line_def)
next
  case (3 l l' ls)
  then have "comment_line cfg l" and "join_lines (l' # ls) \<noteq> []"
    and "last (join_lines (l' # ls)) \<notin> set (szTrimChars cfg)"
    and "CHR 0x00 \<notin> set (join_lines (l' # ls))"
    by simp_all
  then show ?case by (simp add: comment_line_def)
qed

lemma comment_text_facts:
  assumes "comment_text cfg R"
  shows "R \<noteq> []" "hd R \<in> set (CommentIndicators cfg)" "hd R \<notin> set (szTrimChars cfg)"
    "last R \<notin> set (szTrimChars cfg)" "CHR 0x00 \<notin> set R"
  using comment_lines_facts [of "split_lines R" cfg] assms
  by (simp_all add: comment_text_def split_lines_ne join_split)

lemma Load_loop_comment_lines:
  assumes "ls \<noteq> []" "\<forall>l\<in>set ls. comment_line cfg l \<and> length l < MAX_BUFFER_LEN cfg"
  shows "Load_loop cfg (join_lines ls @ CHR 0x0A # rest) (d, acc, p)
           = Load_loop cfg rest (d, acc @ CHR 0x0A # join_lines ls, p)"
  using assms
proof (induction ls arbitrary: acc rule: join_lines.induct)
  case 1
  then show ?case by simp
next
  case (2 l)
  then have l: "comment_line cfg l" "length l < MAX_BUFFER_LEN cfg" by simp_all
  then have "CHR 0x0A \<notin> set l" "CHR 0x00 \<notin> set l" by (simp_all add: comment_line_def)
  from Load_loop_line [OF this l(2), of rest "(d, acc, p)"] show ?case
    by (simp add: Trim_comment_line [OF l(1)] Load_line_comment [OF l(1)])
next
  case (3 l l' ls)
  then have l: "comment_line cfg l" "length l < MAX_BUFFER_LEN cfg" by simp_all
  then have "CHR 0x0A \<notin> set l" "CHR 0x00 \<notin> set l" by (simp_all add: comment_line_def)
  from Load_loop_line [OF this l(2), of "join_lines (l' # ls) @ CHR 0x0A # rest" "(d, acc, p)"]
  have "Load_loop cfg (join_lines (l # l' # ls) @ CHR 0x0A # rest) (d, acc, p)
          = Load_loop cfg (join_lines (l' # ls) @ CHR 0x0A # rest) (d, acc @ CHR 0x0A # l, p)"
    by (simp add: Trim_comment_line [OF l(1)] Load_line_comment [OF l(1)])
  also from "3.prems" have "\<dots> = Load_loop cfg rest
      (d, (acc @ CHR 0x0A # l) @ CHR 0x0A # join_lines (l' # ls), p)"
    by (intro "3.IH") simp_all
  finally show ?case by simp
qed

lemma Load_loop_comment:
  assumes "comment_text cfg R" "length R < MAX_BUFFER_LEN cfg"
  shows "Load_loop cfg (R @ CHR 0x0A # rest) (d, acc, p)
           = Load_loop cfg rest (d, acc @ CHR 0x0A # R, p)"
proof -
  from assms have "\<forall>l\<in>set (split_lines R). comment_line cfg l \<and> length l < MAX_BUFFER_LEN cfg"
    using length_split_lines [of _ R] by (fastforce simp: comment_text_def)
  from Load_loop_comment_lines [OF split_lines_ne this, of rest d acc p] show ?thesis
    by (simp add: join_split)
qed

lemma CommentStr_plain:
  "plain_comment cfg c \<Longrightarrow> c \<noteq> [] \<Longrightarrow> comment_text cfg (CommentStr cfg c)"
  by (simp add: plain_comment_def)

lemma CommentStr_parsed:
  assumes "cfg_ok cfg" "comment_text cfg R"
  shows "CommentStr cfg (CHR 0x0A # R) = R"
proof -
  note R = comment_text_facts [OF assms(2)]
  from R have "Trim cfg (CHR 0x0A # R) = dropWhile (\<lambda>x. x \<in> set (szTrimChars cfg)) (CHR 0x0A # R)"
    by (intro Trim_plain) auto
  also from assms(1) R have "\<dots> = R"
    by (cases R) (auto simp: cfg_ok_def szTrimChars_def)
  finally show ?thesis
    using R by (simp add: CommentStr_def find_first_of_hd)
qed

text \<open>A comment of one line is plain when it has no NUL after its leading trim
  characters and does not end with a trim character.\<close>

lemma plain_comment_one_line:
  assumes "cfg_ok cfg" "c \<noteq> []" "last c \<notin> set (szTrimChars cfg)"
    and "CHR 0x00 \<notin> set (dropWhile (\<lambda>x. x \<in> set (szTrimChars cfg)) c)"
    and "CHR 0x0A \<notin> set (dropWhile (\<lambda>x. x \<in> set (szTrimChars cfg)) c)"
  shows "plain_comment cfg c"
proof -
  let ?T = "szTrimChars cfg"
  let ?c = "dropWhile (\<lambda>x. x \<in> set ?T) c"
  note l = assms(3) and z = assms(4) and n = assms(5)
  from assms l have t: "Trim cfg c = ?c" by (simp add: Trim_plain)
  from l assms have ne: "?c \<noteq> []"
    using last_in_set by (fastforce simp: dropWhile_eq_Nil_conv)
  then have h: "hd ?c \<notin> set ?T" by (rule hd_dropWhile)
  from ne have la: "last ?c = last c"
    by (metis (no_types, lifting) last_appendR takeWhile_dropWhile_id)
  from assms(1) have ci: "at0 (CommentIndicators cfg) \<in> set (CommentIndicators cfg)"
    "at0 (CommentIndicators cfg) \<notin> set ?T" "at0 (CommentIndicators cfg) \<noteq> CHR 0x00"
    "CHR 0x0A \<in> set ?T"
    by (auto simp: cfg_ok_def at0_in szTrimChars_def)
  then have "at0 (CommentIndicators cfg) \<noteq> CHR 0x0A" by auto
  with ne h la l z n ci have "comment_line cfg (CommentStr cfg c)"
    by (auto simp: comment_line_def CommentStr_def t find_first_of_hd Let_def)
  then show ?thesis
    by (simp add: plain_comment_def comment_text_def split_lines_one comment_line_def)
qed

subsection \<open>Looking up sections and keys\<close>

lemma find_section_None:
  "find_section ss n = None \<longleftrightarrow> nocase n \<notin> (\<lambda>s. nocase (szName s)) ` set ss"
  by (induction ss) (auto simp: CompareNoCase_nocase)

lemma find_key_None_nocase:
  "find_key ks n = None \<longleftrightarrow> nocase n \<notin> (\<lambda>k. nocase (szKey k)) ` set ks"
  by (induction ks) (auto simp: CompareNoCase_nocase)

lemma find_section_snoc:
  "find_section xs n = None \<Longrightarrow>
   find_section (xs @ [s]) n = (if CompareNoCase (szName s) n = 0 then Some (length xs) else None)"
  by (induction xs) (auto split: if_splits)

lemma find_section_names:
  "map szName xs = map szName ys \<Longrightarrow> find_section xs n = find_section ys n"
proof (induction xs arbitrary: ys)
  case Nil
  then show ?case by simp
next
  case (Cons x xs)
  then obtain y ys' where "ys = y # ys'" by (cases ys) auto
  with Cons show ?case by auto
qed

subsection \<open>Reading back a key\<close>

lemma eq_in_trim:
  "cfg_ok cfg \<Longrightarrow> at0 (EqualIndicators cfg) \<in> set (EqualIndicators cfg)"
  "cfg_ok cfg \<Longrightarrow> at0 (EqualIndicators cfg) \<in> set (szTrimChars cfg)"
  by (auto simp: cfg_ok_def at0_in szTrimChars_def)

lemma find_first_of_append_hit:
  "set n \<inter> set cs = {} \<Longrightarrow> e \<in> set cs \<Longrightarrow> find_first_of (n @ e # v) cs = Some (length n)"
  by (induction n) auto

lemma find_first_of_miss:
  "set n \<inter> set cs = {} \<Longrightarrow> find_first_of n cs = None"
  by (induction n) auto

lemma key_line:
  assumes "cfg_ok cfg" "plain_key cfg k"
  defines "L \<equiv> Trim cfg (szKey k @ [at0 (EqualIndicators cfg)] @ szValue k)"
  shows "L \<noteq> [] \<and> hd L = hd (szKey k) \<and> GetNextWord cfg L = (szKey k, szValue k)"
proof -
  let ?n = "szKey k" and ?v = "szValue k" and ?e = "at0 (EqualIndicators cfg)"
  from assms(2) have n: "?n \<noteq> []" "hd ?n \<notin> set (szTrimChars cfg)"
    "last ?n \<notin> set (szTrimChars cfg)" "set ?n \<inter> set (EqualIndicators cfg) = {}"
    and v: "?v = [] \<or> last ?v \<notin> set (szTrimChars cfg)"
    by (auto simp: plain_key_def)
  from n have tn: "Trim cfg ?n = ?n" by (simp add: Trim_id)
  show ?thesis
  proof (cases "?v = []")
    case True
    with n assms(1) have "L = ?n"
      by (simp add: L_def Trim_key_only eq_in_trim)
    with n tn True show ?thesis
      by (simp add: GetNextWord_def find_first_of_miss to_int_def)
  next
    case False
    with v n have "L = ?n @ ?e # ?v"
      by (simp add: L_def Trim_id)
    moreover from n assms(1)
    have "find_first_of (?n @ ?e # ?v) (EqualIndicators cfg) = Some (length ?n)"
      by (intro find_first_of_append_hit) (auto simp: eq_in_trim)
    ultimately show ?thesis
      using n tn by (simp add: GetNextWord_def to_int_def erase_in_range_def)
  qed
qed

lemma SetValue_new_key:
  assumes "load_inv d i" "find_key (Keys (m_Sections d ! i)) n = None"
  shows "SetValue d n v c (szName (m_Sections d ! i))
           = (True, put_key d i \<lparr>szKey = n, szValue = v, szComment = c\<rparr>)"
  using assms
  by (simp add: load_inv_def SetValue_def SetValue_key_def GetKey_def GetSection_def
      put_key_def new_t_Key_def Let_def)

lemma Load_line_key:
  assumes "cfg_ok cfg" "plain_key cfg k" "load_inv d i"
    and "find_key (Keys (m_Sections d ! i)) (szKey k) = None"
  shows "Load_line cfg (Trim cfg (szKey k @ [at0 (EqualIndicators cfg)] @ szValue k))
           (d, acc, Some i)
         = Inr (put_key d i \<lparr>szKey = szKey k, szValue = szValue k, szComment = acc\<rparr>,
                [], Some i)"
proof -
  let ?L = "Trim cfg (szKey k @ [at0 (EqualIndicators cfg)] @ szValue k)"
  from key_line [OF assms(1,2)]
  have L: "?L \<noteq> []" "hd ?L = hd (szKey k)" "GetNextWord cfg ?L = (szKey k, szValue k)"
    by simp_all
  from assms(2) have h: "hd (szKey k) \<notin> set (CommentIndicators cfg)" "hd (szKey k) \<noteq> CHR ''[''"
    "szKey k \<noteq> []"
    by (auto simp: plain_key_def)
  from L h have a: "find_first_of ?L (CommentIndicators cfg) \<noteq> Some 0"
    "find_first_of ?L ''['' \<noteq> Some 0"
    by (simp_all add: find_first_of_hd)
  show ?thesis
    unfolding Load_line_def using a L h SetValue_new_key [OF assms(3,4)]
    by simp
qed

lemma parsed_key_eq:
  "parsed_key cfg k
     = \<lparr>szKey = szKey k, szValue = szValue k, szComment = parsed_comment cfg (szComment k)\<rparr>"
  by (cases k) (simp add: parsed_key_def)

lemma CommentStr_Nil: "CommentStr cfg [] = []"
  by (simp add: CommentStr_def Trim_Nil)

lemma cfg_ok_eq:
  "cfg_ok cfg \<Longrightarrow> at0 (EqualIndicators cfg) \<noteq> CHR 0x00"
  "cfg_ok cfg \<Longrightarrow> at0 (EqualIndicators cfg) \<noteq> CHR 0x0A"
  by (simp_all add: cfg_ok_def)

lemma Load_loop_key:
  assumes "cfg_ok cfg" "plain_key cfg k" "load_inv d i"
    and "find_key (Keys (m_Sections d ! i)) (szKey k) = None"
    and "length (key_fmt cfg k) < MAX_BUFFER_LEN cfg"
  shows "Load_loop cfg (key_fmt cfg k @ CHR 0x0A # rest) (d, [], Some i)
           = Load_loop cfg rest (put_key d i (parsed_key cfg k), [], Some i)"
proof -
  let ?n = "szKey k" and ?v = "szValue k" and ?c = "szComment k"
  let ?l = "?n @ [at0 (EqualIndicators cfg)] @ ?v"
  from assms(2) have z: "CHR 0x00 \<notin> set ?n" "CHR 0x00 \<notin> set ?v"
    and n: "CHR 0x0A \<notin> set ?n" "CHR 0x0A \<notin> set ?v" and pc: "plain_comment cfg ?c"
    by (auto simp: plain_key_def)
  from z n cfg_ok_eq [OF assms(1)] have l: "CHR 0x00 \<notin> set ?l" "CHR 0x0A \<notin> set ?l"
    by auto
  have A: "Load_loop cfg (?l @ CHR 0x0A # rest) (d, acc, Some i)
             = Load_loop cfg rest
                 (put_key d i \<lparr>szKey = ?n, szValue = ?v, szComment = acc\<rparr>, [], Some i)"
    if "length ?l < MAX_BUFFER_LEN cfg" for acc
    using Load_loop_line [OF l(2,1) that, of rest "(d, acc, Some i)"]
      Load_line_key [OF assms(1-4), of acc]
    by simp
  show ?thesis
  proof (cases "?c = []")
    case True
    with z have f: "key_fmt cfg k = ?l"
      by (simp add: key_fmt_def CommentStr_Nil c_str_id)
    with assms(5) A [of "[]"] True show ?thesis
      by (simp add: parsed_key_eq parsed_comment_def)
  next
    case False
    let ?R = "CommentStr cfg ?c"
    from False pc have R: "comment_text cfg ?R"
      by (simp add: CommentStr_plain)
    then have Rz: "CHR 0x00 \<notin> set ?R"
      by (rule comment_text_facts)
    from False z Rz have f: "key_fmt cfg k = CHR 0x0A # (?R @ CHR 0x0A # ?l)"
      by (simp add: key_fmt_def c_str_id)
    with assms(5) have len: "length ?R < MAX_BUFFER_LEN cfg" "length ?l < MAX_BUFFER_LEN cfg"
      "0 < MAX_BUFFER_LEN cfg"
      by simp_all
    have "Load_loop cfg (key_fmt cfg k @ CHR 0x0A # rest) (d, [], Some i)
            = Load_loop cfg (?R @ CHR 0x0A # (?l @ CHR 0x0A # rest)) (d, [], Some i)"
      using Load_loop_blank [OF len(3), of "?R @ CHR 0x0A # (?l @ CHR 0x0A # rest)"]
      by (simp add: f)
    also have "\<dots> = Load_loop cfg (?l @ CHR 0x0A # rest) (d, CHR 0x0A # ?R, Some i)"
      using Load_loop_comment [OF R len(1), of "?l @ CHR 0x0A # rest" d "[]" "Some i"]
      by simp
    also have "\<dots> = Load_loop cfg rest
                 (put_key d i \<lparr>szKey = ?n, szValue = ?v, szComment = CHR 0x0A # ?R\<rparr>,
                  [], Some i)"
      by (rule A [OF len(2)])
    finally show ?thesis
      using False by (simp add: parsed_key_eq parsed_comment_def)
  qed
qed

lemma map_update_same: "f y = f (xs ! i) \<Longrightarrow> map f (xs[i := y]) = map f xs"
  by (induction xs arbitrary: i) (simp_all split: nat.split)

lemma load_inv_put_key: "load_inv d i \<Longrightarrow> load_inv (put_key d i k) i"
proof -
  assume a: "load_inv d i"
  have "map szName (m_Sections (put_key d i k)) = map szName (m_Sections d)"
    by (simp add: put_key_def map_update_same)
  then have "find_section (m_Sections (put_key d i k)) n = find_section (m_Sections d) n" for n
    by (rule find_section_names)
  with a show ?thesis
    by (simp add: load_inv_def) (simp add: put_key_def)
qed

lemma Keys_put_key:
  "i < length (m_Sections d) \<Longrightarrow>
   Keys (m_Sections (put_key d i k) ! i) = Keys (m_Sections d ! i) @ [k]"
  by (simp add: put_key_def)

lemma Save_keys_Cons:
  "szKey k \<noteq> [] \<Longrightarrow>
   Save_keys cfg behind (k # ks) File
     = Save_keys cfg behind ks (WriteLn cfg behind File (key_fmt cfg k))"
  by (simp add: key_fmt_def)

lemma WriteLn_fits:
  "length x < MAX_BUFFER_LEN cfg \<Longrightarrow> WriteLn cfg behind File x = File @ x @ [CHR 0x0A]"
  by (simp add: WriteLn_def Let_def nth_append)

lemma Load_loop_keys:
  assumes "cfg_ok cfg"
  shows "\<lbrakk>\<forall>k\<in>set ks. plain_key cfg k;
          distinct (map (\<lambda>k. nocase (szKey k)) ks);
          \<forall>k\<in>set ks. find_key (Keys (m_Sections d ! i)) (szKey k) = None;
          load_inv d i;
          \<forall>k\<in>set ks. length (key_fmt cfg k) < MAX_BUFFER_LEN cfg\<rbrakk>
     \<Longrightarrow> \<exists>t. Save_keys cfg behind ks File0 = File0 @ t \<and>
             (\<forall>rest. Load_loop cfg (t @ rest) (d, [], Some i)
                = Load_loop cfg rest (put_keys d i (map (parsed_key cfg) ks), [], Some i))"
proof (induction ks arbitrary: d File0)
  case Nil
  then show ?case by (simp add: put_keys_def)
next
  case (Cons k ks)
  from Cons.prems have pk: "plain_key cfg k" by simp
  then have ne: "szKey k \<noteq> []" by (simp add: plain_key_def)
  from Cons.prems have len: "length (key_fmt cfg k) < MAX_BUFFER_LEN cfg" by simp
  let ?F = "File0 @ key_fmt cfg k @ [CHR 0x0A]"
  from ne len have s: "Save_keys cfg behind (k # ks) File0 = Save_keys cfg behind ks ?F"
    by (simp add: Save_keys_Cons WriteLn_fits del: Save_keys.simps)
  let ?d = "put_key d i (parsed_key cfg k)"
  from Cons.prems have fk: "find_key (Keys (m_Sections d ! i)) (szKey k) = None" by simp
  have step: "Load_loop cfg (key_fmt cfg k @ CHR 0x0A # rest) (d, [], Some i)
                = Load_loop cfg rest (?d, [], Some i)" for rest
    by (rule Load_loop_key [OF assms pk Cons.prems(4) fk len])
  from Cons.prems(4) have i: "i < length (m_Sections d)" by (simp add: load_inv_def)
  have inv: "load_inv ?d i" using Cons.prems(4) by (rule load_inv_put_key)
  have nk: "\<forall>k'\<in>set ks. find_key (Keys (m_Sections ?d ! i)) (szKey k') = None"
    using Cons.prems(2,3)
    by (simp add: Keys_put_key [OF i] find_key_None_nocase parsed_key_def image_iff)
      metis
  from Cons.prems have "\<forall>k\<in>set ks. plain_key cfg k" "distinct (map (\<lambda>k. nocase (szKey k)) ks)"
    by simp_all
  moreover from Cons.prems have "\<forall>k\<in>set ks. length (key_fmt cfg k) < MAX_BUFFER_LEN cfg"
    by simp
  ultimately obtain t where
    t: "Save_keys cfg behind ks ?F = ?F @ t"
      "\<And>rest. Load_loop cfg (t @ rest) (?d, [], Some i)
         = Load_loop cfg rest (put_keys ?d i (map (parsed_key cfg) ks), [], Some i)"
    using Cons.IH [OF _ _ nk inv, of ?F] by blast
  have "Save_keys cfg behind (k # ks) File0 = File0 @ (key_fmt cfg k @ CHR 0x0A # t)"
    using t(1) s by simp
  moreover have "Load_loop cfg ((key_fmt cfg k @ CHR 0x0A # t) @ rest) (d, [], Some i)
      = Load_loop cfg rest (put_keys d i (map (parsed_key cfg) (k # ks)), [], Some i)" for rest
    using step [of "t @ rest"] t(2) [of rest] by (simp add: put_keys_def)
  ultimately show ?case by blast
qed

lemma put_keys_Sections:
  "i < length (m_Sections d) \<Longrightarrow>
   m_Sections (put_keys d i ks)
     = (m_Sections d)[i := (m_Sections d ! i)\<lparr>Keys := Keys (m_Sections d ! i) @ ks\<rparr>]"
proof (induction ks arbitrary: d)
  case Nil
  then show ?case by (simp add: put_keys_def list_update_same_conv)
next
  case (Cons k ks)
  have "put_keys d i (k # ks) = put_keys (put_key d i k) i ks"
    by (simp add: put_keys_def)
  moreover from Cons.prems have "i < length (m_Sections (put_key d i k))"
    by (simp add: put_key_def)
  ultimately show ?case
    using Cons.IH [of "put_key d i k"] Cons.prems by (simp add: put_key_def)
qed

lemma put_keys_other:
  "m_Flags (put_keys d i ks) = m_Flags d"
  "m_szFileName (put_keys d i ks) = m_szFileName d"
  by (induction ks arbitrary: d) (simp_all add: put_keys_def put_key_def)

subsection \<open>Reading back a section header\<close>

lemma CompareNoCase_refl: "CompareNoCase a a = 0"
  by (simp add: CompareNoCase_0)

lemma find_last_of_snoc: "find_last_of (n @ [c]) [c] = Some (length n)"
  by (simp add: find_last_of_def)

lemma Load_line_header:
  assumes "cfg_ok cfg" "find_section (m_Sections d) n = None"
  shows "Load_line cfg (''['' @ n @ '']'') (d, acc, p)
           = Inr (put_section d n acc, [], Some (length (m_Sections d)))"
proof -
  from assms(1) have a: "CHR ''['' \<notin> set (CommentIndicators cfg)"
    by (simp add: cfg_ok_def)
  have e: "erase (n @ '']'') (find_last_of (n @ '']'') '']'') 1 = Inr n"
    by (simp add: find_last_of_snoc erase_def erase_in_range_def)
  from assms(2) have c: "CreateSection d n acc = (True, put_section d n acc)"
    by (simp add: CreateSection_def GetSection_def put_section_def)
  from assms(2) have g: "GetSection (put_section d n acc) n = Some (length (m_Sections d))"
    by (simp add: GetSection_def put_section_def find_section_snoc CompareNoCase_refl
        new_t_Section_def)
  from a e show ?thesis
    by (simp add: Load_line_def erase_in_range_def c g Let_def)
qed

lemma Load_loop_header:
  assumes "cfg_ok cfg" "plain_section cfg s"
    and "find_section (m_Sections d) (szName s) = None"
    and "szSectionComment s \<noteq> [] \<longrightarrow>
           length (CHR 0x0A # CommentStr cfg (szSectionComment s)) < MAX_BUFFER_LEN cfg"
    and "length ((if szSectionComment s \<noteq> [] then [] else [CHR 0x0A]) @ ''['' @ szName s @ '']'')
           < MAX_BUFFER_LEN cfg"
  shows "Load_loop cfg (hdr_text cfg s @ rest) (d, [], p)
           = Load_loop cfg rest
               (put_section d (szName s) (parsed_comment cfg (szSectionComment s)), [],
                Some (length (m_Sections d)))"
proof -
  let ?n = "szName s" and ?c = "szSectionComment s"
  let ?h = "''['' @ ?n @ '']''"
  from assms(2) have n: "CHR 0x00 \<notin> set ?n" "CHR 0x0A \<notin> set ?n"
    and pc: "plain_comment cfg ?c"
    by (auto simp: plain_section_def)
  from n have h: "CHR 0x00 \<notin> set ?h" "CHR 0x0A \<notin> set ?h" by auto
  from assms(1) have "hd ?h \<notin> set (szTrimChars cfg)" "last ?h \<notin> set (szTrimChars cfg)"
    by (simp_all add: cfg_ok_def)
  then have th: "Trim cfg ?h = ?h" by (intro Trim_id) simp_all
  from assms(5) have len: "length ?h < MAX_BUFFER_LEN cfg" "0 < MAX_BUFFER_LEN cfg"
    by (auto split: if_splits)
  have A: "Load_loop cfg (?h @ CHR 0x0A # rest) (d, acc, p)
             = Load_loop cfg rest (put_section d ?n acc, [], Some (length (m_Sections d)))" for acc
    using Load_loop_line [OF h(2,1) len(1), of rest "(d, acc, p)"]
      Load_line_header [OF assms(1,3), of acc p] th
    by simp
  show ?thesis
  proof (cases "?c = []")
    case True
    then have "hdr_text cfg s @ rest = CHR 0x0A # (?h @ CHR 0x0A # rest)"
      by (simp add: hdr_text_def)
    with A [of "[]"] Load_loop_blank [OF len(2), of "?h @ CHR 0x0A # rest" "(d, [], p)"] True
    show ?thesis by (simp add: parsed_comment_def)
  next
    case False
    let ?R = "CommentStr cfg ?c"
    from False pc have R: "comment_text cfg ?R"
      by (simp add: CommentStr_plain)
    then have Rz: "CHR 0x00 \<notin> set ?R"
      by (rule comment_text_facts)
    from False assms(4) have lenR: "length ?R < MAX_BUFFER_LEN cfg" by simp
    from False have "hdr_text cfg s @ rest = CHR 0x0A # (?R @ CHR 0x0A # (?h @ CHR 0x0A # rest))"
      by (simp add: hdr_text_def)
    then have "Load_loop cfg (hdr_text cfg s @ rest) (d, [], p)
            = Load_loop cfg (?R @ CHR 0x0A # (?h @ CHR 0x0A # rest)) (d, [], p)"
      using Load_loop_blank [OF len(2), of "?R @ CHR 0x0A # (?h @ CHR 0x0A # rest)" "(d, [], p)"]
      by simp
    also have "\<dots> = Load_loop cfg (?h @ CHR 0x0A # rest) (d, CHR 0x0A # ?R, p)"
      using Load_loop_comment [OF R lenR, of "?h @ CHR 0x0A # rest" d "[]" p]
      by simp
    also have "\<dots> = Load_loop cfg rest
                 (put_section d ?n (CHR 0x0A # ?R), [], Some (length (m_Sections d)))"
      by (rule A)
    finally show ?thesis
      using False by (simp add: parsed_comment_def)
  qed
qed

lemma parsed_section_eq:
  "parsed_section cfg s
     = \<lparr>szName = szName s, szSectionComment = parsed_comment cfg (szSectionComment s),
        Keys = map (parsed_key cfg) (Keys s)\<rparr>"
  by (cases s) (simp add: parsed_section_def)

lemma section_texts_keys:
  "k \<in> set (Keys s) \<Longrightarrow> szKey k \<noteq> [] \<Longrightarrow> key_fmt cfg k \<in> set (section_texts cfg s)"
  by (simp add: section_texts_def)

lemma Save_sections_plain:
  assumes "plain_section cfg s" "cfg_ok cfg"
    and "\<forall>t\<in>set (section_texts cfg s). length t < MAX_BUFFER_LEN cfg"
  shows "Save_sections cfg behind (s # ss) File0
           = Save_sections cfg behind ss
               (Save_keys cfg behind (Keys s) (File0 @ hdr_text cfg s))"
    and "szSectionComment s \<noteq> [] \<longrightarrow>
           length (CHR 0x0A # CommentStr cfg (szSectionComment s)) < MAX_BUFFER_LEN cfg"
    and "length ((if szSectionComment s \<noteq> [] then [] else [CHR 0x0A])
                   @ ''['' @ szName s @ '']'') < MAX_BUFFER_LEN cfg"
    and "\<forall>k\<in>set (Keys s). length (key_fmt cfg k) < MAX_BUFFER_LEN cfg"
proof -
  let ?n = "szName s" and ?c = "szSectionComment s"
  from assms(1) have n: "CHR 0x00 \<notin> set ?n" "?n \<noteq> []" and pc: "plain_comment cfg ?c"
    and ks: "\<forall>k\<in>set (Keys s). szKey k \<noteq> []"
    by (auto simp: plain_section_def plain_keys_def plain_key_def)
  have cs: "c_str (CommentStr cfg ?c) = CommentStr cfg ?c"
  proof (cases "?c = []")
    case True
    then show ?thesis by (simp add: CommentStr_Nil c_str_def)
  next
    case False
    with pc have "comment_text cfg (CommentStr cfg ?c)"
      by (simp add: CommentStr_plain)
    then show ?thesis
      by (simp add: comment_text_facts c_str_id)
  qed
  from assms(3) n show b: "?c \<noteq> [] \<longrightarrow>
           length (CHR 0x0A # CommentStr cfg ?c) < MAX_BUFFER_LEN cfg"
    by (auto simp: section_texts_def cs)
  from assms(3) n show c: "length ((if ?c \<noteq> [] then [] else [CHR 0x0A])
                   @ ''['' @ ?n @ '']'') < MAX_BUFFER_LEN cfg"
    by (auto simp: section_texts_def c_str_id)
  from assms(3) ks show "\<forall>k\<in>set (Keys s). length (key_fmt cfg k) < MAX_BUFFER_LEN cfg"
    using section_texts_keys [of _ s cfg] by blast
  from b c n show "Save_sections cfg behind (s # ss) File0
           = Save_sections cfg behind ss
               (Save_keys cfg behind (Keys s) (File0 @ hdr_text cfg s))"
    by (cases "?c = []") (simp_all add: Let_def cs c_str_id hdr_text_def WriteLn_fits)
qed

subsection \<open>Reading back a list of sections\<close>

lemma parsed_key_simps:
  "szKey (parsed_key cfg k) = szKey k"
  "szValue (parsed_key cfg k) = szValue k"
  "szComment (parsed_key cfg k) = parsed_comment cfg (szComment k)"
  by (simp_all add: parsed_key_def)

lemma parsed_section_simps:
  "szName (parsed_section cfg s) = szName s"
  "szSectionComment (parsed_section cfg s) = parsed_comment cfg (szSectionComment s)"
  "Keys (parsed_section cfg s) = map (parsed_key cfg) (Keys s)"
  by (simp_all add: parsed_section_def)

lemma put_section_simps:
  "m_Sections (put_section d n c)
     = m_Sections d @ [\<lparr>szName = n, szSectionComment = c, Keys = []\<rparr>]"
  "m_Flags (put_section d n c) = m_Flags d"
  "m_szFileName (put_section d n c) = m_szFileName d"
  by (simp_all add: put_section_def new_t_Section_def)

lemma load_inv_put_section:
  assumes "find_section (m_Sections d) n = None" "m_Flags d AND AUTOCREATE_KEYS \<noteq> 0"
  shows "load_inv (put_section d n c) (length (m_Sections d))"
  using assms
  by (simp add: load_inv_def put_section_simps find_section_snoc CompareNoCase_refl)

lemma Load_loop_sections:
  assumes "cfg_ok cfg"
  shows "\<lbrakk>\<forall>s\<in>set ss. plain_section cfg s;
          distinct (map (\<lambda>s. nocase (szName s)) ss);
          \<forall>s\<in>set ss. find_section (m_Sections d) (szName s) = None;
          m_Flags d AND AUTOCREATE_KEYS \<noteq> 0;
          \<forall>s\<in>set ss. \<forall>t\<in>set (section_texts cfg s). length t < MAX_BUFFER_LEN cfg\<rbrakk>
     \<Longrightarrow> \<exists>t d'. Save_sections cfg behind ss File0 = File0 @ t
           \<and> m_Sections d' = m_Sections d @ map (parsed_section cfg) ss
           \<and> m_Flags d' = m_Flags d \<and> m_szFileName d' = m_szFileName d
           \<and> (\<forall>rest p. \<exists>p'. Load_loop cfg (t @ rest) (d, [], p)
                                = Load_loop cfg rest (d', [], p'))"
proof (induction ss arbitrary: d File0)
  case Nil
  then show ?case by auto
next
  case (Cons s ss)
  let ?n = "szName s" and ?c = "parsed_comment cfg (szSectionComment s)"
  let ?i = "length (m_Sections d)"
  from Cons.prems have ps: "plain_section cfg s"
    and fs: "find_section (m_Sections d) ?n = None"
    and ft: "\<forall>t\<in>set (section_texts cfg s). length t < MAX_BUFFER_LEN cfg"
    by simp_all
  note sp = Save_sections_plain [OF ps assms ft]
  let ?Fb = "File0 @ hdr_text cfg s"
  let ?d1 = "put_section d ?n ?c"
  have hdr: "Load_loop cfg (hdr_text cfg s @ rest) (d, [], p)
               = Load_loop cfg rest (?d1, [], Some ?i)" for rest p
    by (rule Load_loop_header [OF assms ps fs sp(2,3)])
  have inv: "load_inv ?d1 ?i"
    using fs Cons.prems(4) by (rule load_inv_put_section)
  from ps have pk: "\<forall>k\<in>set (Keys s). plain_key cfg k"
    "distinct (map (\<lambda>k. nocase (szKey k)) (Keys s))"
    by (simp_all add: plain_section_def plain_keys_def)
  have nk: "\<forall>k\<in>set (Keys s). find_key (Keys (m_Sections ?d1 ! ?i)) (szKey k) = None"
    by (simp add: put_section_simps)
  from Load_loop_keys [OF assms pk nk inv sp(4), of behind ?Fb] obtain tk where
    tk: "Save_keys cfg behind (Keys s) ?Fb = ?Fb @ tk"
      "\<And>rest. Load_loop cfg (tk @ rest) (?d1, [], Some ?i)
         = Load_loop cfg rest (put_keys ?d1 ?i (map (parsed_key cfg) (Keys s)), [], Some ?i)"
    by blast
  let ?Fc = "?Fb @ tk"
  let ?d2 = "put_keys ?d1 ?i (map (parsed_key cfg) (Keys s))"
  have s2: "m_Sections ?d2 = m_Sections d @ [parsed_section cfg s]"
    by (simp add: put_keys_Sections put_section_simps parsed_section_eq)
  have f2: "m_Flags ?d2 = m_Flags d" "m_szFileName ?d2 = m_szFileName d"
    by (simp_all add: put_keys_other put_section_simps)
  from Cons.prems have rest_plain: "\<forall>s\<in>set ss. plain_section cfg s"
    "distinct (map (\<lambda>s. nocase (szName s)) ss)"
    by simp_all
  have nf: "\<forall>s'\<in>set ss. find_section (m_Sections ?d2) (szName s') = None"
    using Cons.prems(2,3)
    by (simp add: s2 find_section_None parsed_section_simps image_iff) metis
  from Cons.prems(4) have fl: "m_Flags ?d2 AND AUTOCREATE_KEYS \<noteq> 0"
    by (simp add: f2)
  from Cons.prems have rest_fits:
    "\<forall>s\<in>set ss. \<forall>t\<in>set (section_texts cfg s). length t < MAX_BUFFER_LEN cfg"
    by simp
  from Cons.IH [OF rest_plain nf fl rest_fits, of ?Fc] obtain t d' where
    t: "Save_sections cfg behind ss ?Fc = ?Fc @ t"
      "m_Sections d' = m_Sections ?d2 @ map (parsed_section cfg) ss"
      "m_Flags d' = m_Flags ?d2" "m_szFileName d' = m_szFileName ?d2"
      "\<And>rest p. \<exists>p'. Load_loop cfg (t @ rest) (?d2, [], p) = Load_loop cfg rest (d', [], p')"
    by blast
  have "Save_sections cfg behind (s # ss) File0 = File0 @ (hdr_text cfg s @ tk @ t)"
    using t(1) tk(1) sp(1) [of behind ss File0] by simp
  moreover have "m_Sections d' = m_Sections d @ map (parsed_section cfg) (s # ss)"
    using t(2) s2 by simp
  moreover have "m_Flags d' = m_Flags d" "m_szFileName d' = m_szFileName d"
    using t(3,4) f2 by simp_all
  moreover have "\<exists>p'. Load_loop cfg ((hdr_text cfg s @ tk @ t) @ rest) (d, [], p)
                         = Load_loop cfg rest (d', [], p')" for rest p
  proof -
    from t(5) [of rest "Some ?i"] obtain p' where
      "Load_loop cfg (t @ rest) (?d2, [], Some ?i) = Load_loop cfg rest (d', [], p')"
      by blast
    with hdr [of "tk @ t @ rest" p] tk(2) [of "t @ rest"] show ?thesis
      by auto
  qed
  ultimately show ?case by blast
qed

subsection \<open>Saving what has been read\<close>

lemma CommentStr_parsed_comment:
  assumes "cfg_ok cfg" "plain_comment cfg c"
  shows "CommentStr cfg (parsed_comment cfg c) = CommentStr cfg c"
    and "parsed_comment cfg c = [] \<longleftrightarrow> c = []"
  using assms
  by (auto simp: parsed_comment_def CommentStr_parsed CommentStr_plain)

lemma Save_keys_parsed:
  assumes "cfg_ok cfg"
  shows "\<forall>k\<in>set ks. plain_key cfg k \<Longrightarrow>
         Save_keys cfg behind (map (parsed_key cfg) ks) File = Save_keys cfg behind ks File"
proof (induction ks arbitrary: File)
  case Nil
  then show ?case by simp
next
  case (Cons k ks)
  then have "plain_comment cfg (szComment k)" by (simp add: plain_key_def)
  from CommentStr_parsed_comment [OF assms this] Cons show ?case
    by (simp add: parsed_key_simps)
qed

lemma Save_sections_parsed:
  assumes "cfg_ok cfg"
  shows "\<forall>s\<in>set ss. plain_comment cfg (szSectionComment s) \<and> (\<forall>k\<in>set (Keys s). plain_key cfg k)
         \<Longrightarrow> Save_sections cfg behind (map (parsed_section cfg) ss) File
               = Save_sections cfg behind ss File"
proof (induction ss arbitrary: File)
  case Nil
  then show ?case by simp
next
  case (Cons s ss)
  then have "plain_comment cfg (szSectionComment s)" "\<forall>k\<in>set (Keys s). plain_key cfg k"
    by simp_all
  from CommentStr_parsed_comment [OF assms this(1)] Save_keys_parsed [OF assms this(2)] Cons
  show ?case
    by (simp add: parsed_section_simps Let_def)
qed

lemma plain_comment_Nil: "plain_comment cfg []"
  by (simp add: plain_comment_def)

subsection \<open>The public operations build plain objects that fit\<close>

text \<open>A newly constructed object is plain, and \<^verbatim>\<open>CreateSection\<close>, \<^verbatim>\<open>SetValue\<close>,
  \<^verbatim>\<open>CreateKey\<close> and \<^verbatim>\<open>SetFileName\<close> with plain arguments keep an object plain. A
  newly constructed object fits, and these operations keep an object fitting when the
  texts that \<^verbatim>\<open>Save\<close> will format for their arguments are shorter than the buffer.\<close>

lemma plain_doc_new: "plain_doc cfg CDataFile_new"
  by (simp add: plain_doc_def CDataFile_new_def new_t_Section_def plain_keys_def)

lemma plain_keys_append:
  assumes "plain_keys cfg ks" "plain_key cfg k" "find_key ks (szKey k) = None"
  shows "plain_keys cfg (ks @ [k])"
  using assms by (auto simp: plain_keys_def find_key_None_nocase)

lemma plain_keys_update:
  assumes "plain_keys cfg ks" "j < length ks" "plain_key cfg k" "szKey k = szKey (ks ! j)"
  shows "plain_keys cfg (ks[j := k])"
proof -
  from assms(4) have "map (\<lambda>k. nocase (szKey k)) (ks[j := k]) = map (\<lambda>k. nocase (szKey k)) ks"
    by (intro map_update_same) simp
  moreover from assms have "\<forall>x\<in>set (ks[j := k]). plain_key cfg x"
    using set_update_subset_insert [of ks j k] by (auto simp: plain_keys_def)
  ultimately show ?thesis
    using assms(1) by (simp add: plain_keys_def)
qed

lemma plain_doc_Keys:
  assumes "plain_doc cfg d" "i < length (m_Sections d)"
  shows "plain_keys cfg (Keys (m_Sections d ! i))"
proof -
  from assms(1) obtain s0 ss where s: "m_Sections d = s0 # ss" "plain_keys cfg (Keys s0)"
    "\<forall>s\<in>set ss. plain_section cfg s"
    by (auto simp: plain_doc_def split: list.splits)
  with assms(2) show ?thesis
    by (cases i) (auto simp: plain_section_def)
qed

lemma plain_doc_put_keys:
  assumes "plain_doc cfg d" "i < length (m_Sections d)" "plain_keys cfg ks"
    and "m_Sections d' = (m_Sections d)[i := (m_Sections d ! i)\<lparr>Keys := ks\<rparr>]"
  shows "plain_doc cfg d'"
proof -
  from assms(1) obtain s0 ss where s: "m_Sections d = s0 # ss"
    and s0: "szName s0 = []" "szSectionComment s0 = []" "plain_keys cfg (Keys s0)"
    and ss: "\<forall>s\<in>set ss. plain_section cfg s" "distinct (map (\<lambda>s. nocase (szName s)) ss)"
    by (auto simp: plain_doc_def split: list.splits)
  show ?thesis
  proof (cases i)
    case 0
    with s s0 ss assms(3,4) show ?thesis by (simp add: plain_doc_def)
  next
    case (Suc j)
    with assms(2) s have j: "j < length ss" by simp
    let ?s = "(ss ! j)\<lparr>Keys := ks\<rparr>"
    from j ss(1) assms(3) have "plain_section cfg ?s"
      by (simp add: plain_section_def)
    with ss(1) have a: "\<forall>s\<in>set (ss[j := ?s]). plain_section cfg s"
      using set_update_subset_insert [of ss j ?s] by auto
    have "map (\<lambda>s. nocase (szName s)) (ss[j := ?s]) = map (\<lambda>s. nocase (szName s)) ss"
      by (intro map_update_same) simp
    with ss(2) have "distinct (map (\<lambda>s. nocase (szName s)) (ss[j := ?s]))" by simp
    with a s s0 Suc assms(4) show ?thesis by (simp add: plain_doc_def)
  qed
qed

lemma plain_doc_CreateSection:
  assumes "plain_doc cfg d" "n \<noteq> []" "CHR 0x00 \<notin> set n" "CHR 0x0A \<notin> set n"
    and "plain_comment cfg c"
  shows "plain_doc cfg (snd (CreateSection d n c))"
proof (cases "GetSection d n")
  case (Some i)
  with assms(1) show ?thesis by (simp add: CreateSection_def)
next
  case None
  from assms(1) obtain s0 ss where s: "m_Sections d = s0 # ss"
    and s0: "szName s0 = []" "szSectionComment s0 = []" "plain_keys cfg (Keys s0)"
    and ss: "\<forall>s\<in>set ss. plain_section cfg s" "distinct (map (\<lambda>s. nocase (szName s)) ss)"
    by (auto simp: plain_doc_def split: list.splits)
  from None s have "find_section (s0 # ss) n = None"
    by (simp add: GetSection_def)
  then have "nocase n \<notin> (\<lambda>s. nocase (szName s)) ` set (s0 # ss)"
    unfolding find_section_None .
  then have "nocase n \<notin> (\<lambda>s. nocase (szName s)) ` set ss"
    by simp
  moreover from assms have
    "plain_section cfg (new_t_Section\<lparr>szName := n, szSectionComment := c\<rparr>)"
    by (simp add: plain_section_def new_t_Section_def plain_keys_def)
  ultimately show ?thesis
    using None s s0 ss by (simp add: CreateSection_def plain_doc_def new_t_Section_def)
qed

lemma plain_key_parts:
  assumes "plain_key cfg k" "plain_key cfg k'"
  shows "plain_key cfg (k\<lparr>szValue := szValue k', szComment := szComment k'\<rparr>)"
  using assms by (simp add: plain_key_def)

lemma plain_doc_SetValue_key:
  assumes pd: "plain_doc cfg d"
    and pk: "plain_key cfg \<lparr>szKey = k, szValue = v, szComment = c\<rparr>"
    and i: "i < length (m_Sections d)"
    and g: "pKey = map_option (Pair i) (find_key (Keys (m_Sections d ! i)) k)"
  shows "plain_doc cfg (snd (SetValue_key d pKey (Some i) k v c))"
proof (cases "find_key (Keys (m_Sections d ! i)) k")
  case None
  let ?ks = "Keys (m_Sections d ! i)"
  from plain_doc_Keys [OF pd i] pk None
  have "plain_keys cfg (?ks @ [\<lparr>szKey = k, szValue = v, szComment = c\<rparr>])"
    by (intro plain_keys_append) simp_all
  from plain_doc_put_keys [OF pd i this] None g pd show ?thesis
    by (simp add: SetValue_key_def new_t_Key_def Let_def)
next
  case (Some j)
  let ?ks = "Keys (m_Sections d ! i)"
  from Some have j: "j < length ?ks" by (rule find_key_less)
  from plain_doc_Keys [OF pd i] have pks: "plain_keys cfg ?ks" .
  with j have "plain_key cfg (?ks ! j)" by (simp add: plain_keys_def)
  from plain_key_parts [OF this pk]
  have "plain_key cfg ((?ks ! j)\<lparr>szValue := v, szComment := c\<rparr>)" by simp
  with pks j have "plain_keys cfg (?ks[j := (?ks ! j)\<lparr>szValue := v, szComment := c\<rparr>])"
    by (intro plain_keys_update) simp_all
  from plain_doc_put_keys [OF pd i this] Some g show ?thesis
    by (simp add: SetValue_key_def Let_def)
qed

lemma plain_doc_SetValue:
  assumes pd: "plain_doc cfg d"
    and pk: "plain_key cfg \<lparr>szKey = k, szValue = v, szComment = c\<rparr>"
    and s: "CHR 0x00 \<notin> set s" "CHR 0x0A \<notin> set s"
  shows "plain_doc cfg (snd (SetValue d k v c s))"
proof (cases "GetSection d s")
  case (Some i)
  then have i: "i < length (m_Sections d)"
    by (simp add: GetSection_def find_section_less)
  from Some have "GetKey d k s = map_option (Pair i) (find_key (Keys (m_Sections d ! i)) k)"
    by (simp add: GetKey_def split: option.splits)
  from plain_doc_SetValue_key [OF pd pk i this] Some show ?thesis
    by (simp add: SetValue_def)
next
  case None
  show ?thesis
  proof (cases "m_Flags d AND AUTOCREATE_SECTIONS = 0")
    case True
    with None pd show ?thesis by (simp add: SetValue_def)
  next
    case False
    from pd None have ne: "s \<noteq> []"
      by (auto simp: plain_doc_def GetSection_def CompareNoCase_refl split: list.splits)
    let ?d1 = "d\<lparr>m_Sections := m_Sections d @ [new_t_Section\<lparr>szName := s, szSectionComment := []\<rparr>],
                   m_bDirty := True\<rparr>"
    from None have c: "CreateSection d s [] = (True, ?d1)"
      by (simp add: CreateSection_def)
    from plain_doc_CreateSection [OF pd ne s plain_comment_Nil] c
    have pd1: "plain_doc cfg ?d1" by simp
    from None have g1: "GetSection ?d1 s = Some (length (m_Sections d))"
      by (simp add: GetSection_def find_section_snoc CompareNoCase_refl new_t_Section_def)
    from None have k0: "GetKey d k s = None" by (simp add: GetKey_def)
    have "plain_doc cfg (snd (SetValue_key ?d1 None (Some (length (m_Sections d))) k v c))"
      by (rule plain_doc_SetValue_key [OF pd1 pk]) (simp_all add: new_t_Section_def)
    with None False c g1 k0 show ?thesis
      by (simp add: SetValue_def)
  qed
qed

lemma plain_doc_CreateKey:
  assumes "plain_doc cfg d"
    and "plain_key cfg \<lparr>szKey = k, szValue = v, szComment = c\<rparr>"
    and "CHR 0x00 \<notin> set s" "CHR 0x0A \<notin> set s"
  shows "plain_doc cfg (snd (CreateKey d k v c s))"
proof -
  let ?d1 = "d\<lparr>m_Flags := m_Flags d OR AUTOCREATE_KEYS\<rparr>"
  from assms(1) have "plain_doc cfg ?d1" by (simp add: plain_doc_def)
  from plain_doc_SetValue [OF this assms(2-4)]
  have "plain_doc cfg (snd (SetValue ?d1 k v c s))" .
  then show ?thesis
    by (cases "SetValue ?d1 k v c s") (simp add: CreateKey_def Let_def plain_doc_def)
qed

lemma plain_doc_SetFileName: "plain_doc cfg d \<Longrightarrow> plain_doc cfg (SetFileName d n)"
  by (simp add: SetFileName_def plain_doc_def)

lemma fits_new: "fits cfg CDataFile_new"
  by (simp add: fits_def CDataFile_new_def new_t_Section_def section_texts_def)

lemma fits_SetFileName: "fits cfg d \<Longrightarrow> fits cfg (SetFileName d n)"
  by (simp add: SetFileName_def fits_def)

lemma fits_CreateSection:
  assumes "fits cfg d"
    and "c \<noteq> [] \<longrightarrow> length (CHR 0x0A # c_str (CommentStr cfg c)) < MAX_BUFFER_LEN cfg"
    and "length ((if c \<noteq> [] then [] else [CHR 0x0A]) @ ''['' @ c_str n @ '']'')
           < MAX_BUFFER_LEN cfg"
  shows "fits cfg (snd (CreateSection d n c))"
  using assms
  by (auto simp: CreateSection_def fits_def section_texts_def new_t_Section_def
      split: option.splits)

lemma find_key_Some:
  "find_key ks n = Some j \<Longrightarrow> nocase (szKey (ks ! j)) = nocase n"
  by (induction ks arbitrary: j) (auto simp: CompareNoCase_nocase split: if_splits)

lemma length_c_str_nocase: "nocase a = nocase b \<Longrightarrow> length (c_str a) = length (c_str b)"
  unfolding nocase_def by (rule map_eq_imp_length_eq)

lemma key_fmt_length:
  "nocase (szKey k) = nocase n \<Longrightarrow>
   length (key_fmt cfg (k\<lparr>szValue := v, szComment := c\<rparr>))
     = length (key_fmt cfg \<lparr>szKey = n, szValue = v, szComment = c\<rparr>)"
  using length_c_str_nocase [of "szKey k" n] by (simp add: key_fmt_def)

lemma section_texts_set:
  "set (section_texts cfg s)
     = set (section_texts cfg (s\<lparr>Keys := []\<rparr>))
       \<union> key_fmt cfg ` {k \<in> set (Keys s). szKey k \<noteq> []}"
  by (simp add: section_texts_def)

lemma section_texts_Keys:
  assumes "\<forall>t\<in>set (section_texts cfg s). length t < M"
    and "\<forall>k\<in>set ks. k \<in> set (Keys s) \<or> length (key_fmt cfg k) < M"
  shows "\<forall>t\<in>set (section_texts cfg (s\<lparr>Keys := ks\<rparr>)). length t < M"
proof
  fix t assume "t \<in> set (section_texts cfg (s\<lparr>Keys := ks\<rparr>))"
  then consider "t \<in> set (section_texts cfg (s\<lparr>Keys := []\<rparr>))"
    | k where "k \<in> set ks" "szKey k \<noteq> []" "t = key_fmt cfg k"
    unfolding section_texts_set [of cfg "s\<lparr>Keys := ks\<rparr>"] by auto
  then show "length t < M"
  proof cases
    case 1
    then have "t \<in> set (section_texts cfg s)"
      unfolding section_texts_set [of cfg s] by simp
    with assms(1) show ?thesis by simp
  next
    case 2
    show ?thesis
    proof (cases "k \<in> set (Keys s)")
      case True
      with 2 have "t \<in> set (section_texts cfg s)"
        unfolding section_texts_set [of cfg s] by simp
      with assms(1) show ?thesis by simp
    next
      case False
      with 2 assms(2) show ?thesis by auto
    qed
  qed
qed

lemma fits_put_keys:
  assumes "fits cfg d" "i < length (m_Sections d)"
    and "\<forall>k\<in>set ks. k \<in> set (Keys (m_Sections d ! i))
           \<or> length (key_fmt cfg k) < MAX_BUFFER_LEN cfg"
    and "m_Sections d' = (m_Sections d)[i := (m_Sections d ! i)\<lparr>Keys := ks\<rparr>]"
  shows "fits cfg d'"
proof -
  let ?s = "(m_Sections d ! i)\<lparr>Keys := ks\<rparr>"
  from assms(1) nth_mem [OF assms(2)]
  have "\<forall>t\<in>set (section_texts cfg (m_Sections d ! i)). length t < MAX_BUFFER_LEN cfg"
    unfolding fits_def by blast
  from section_texts_Keys [OF this assms(3)]
  have "\<forall>t\<in>set (section_texts cfg ?s). length t < MAX_BUFFER_LEN cfg" .
  with assms(1) have "\<forall>s\<in>insert ?s (set (m_Sections d)).
      \<forall>t\<in>set (section_texts cfg s). length t < MAX_BUFFER_LEN cfg"
    unfolding fits_def by blast
  with set_update_subset_insert [of "m_Sections d" i ?s] show ?thesis
    unfolding fits_def assms(4) by blast
qed

lemma fits_SetValue_key:
  assumes ft: "fits cfg d"
    and len: "length (key_fmt cfg \<lparr>szKey = k, szValue = v, szComment = c\<rparr>) < MAX_BUFFER_LEN cfg"
    and i: "i < length (m_Sections d)"
    and g: "pKey = map_option (Pair i) (find_key (Keys (m_Sections d ! i)) k)"
  shows "fits cfg (snd (SetValue_key d pKey (Some i) k v c))"
proof (cases "find_key (Keys (m_Sections d ! i)) k")
  case None
  let ?ks = "Keys (m_Sections d ! i)"
  from len have "\<forall>x\<in>set (?ks @ [\<lparr>szKey = k, szValue = v, szComment = c\<rparr>]).
      x \<in> set ?ks \<or> length (key_fmt cfg x) < MAX_BUFFER_LEN cfg"
    by auto
  from fits_put_keys [OF ft i this] None g ft show ?thesis
    by (simp add: SetValue_key_def new_t_Key_def Let_def)
next
  case (Some j)
  let ?ks = "Keys (m_Sections d ! i)"
  let ?k = "(?ks ! j)\<lparr>szValue := v, szComment := c\<rparr>"
  from Some have "nocase (szKey (?ks ! j)) = nocase k" by (rule find_key_Some)
  with len have "length (key_fmt cfg ?k) < MAX_BUFFER_LEN cfg"
    by (simp add: key_fmt_length)
  then have "\<forall>x\<in>set (?ks[j := ?k]). x \<in> set ?ks \<or> length (key_fmt cfg x) < MAX_BUFFER_LEN cfg"
    using set_update_subset_insert [of ?ks j ?k] by auto
  from fits_put_keys [OF ft i this] Some g show ?thesis
    by (simp add: SetValue_key_def Let_def)
qed

lemma fits_SetValue:
  assumes ft: "fits cfg d"
    and len: "length (key_fmt cfg \<lparr>szKey = k, szValue = v, szComment = c\<rparr>) < MAX_BUFFER_LEN cfg"
    and s: "length ([CHR 0x0A] @ ''['' @ c_str s @ '']'') < MAX_BUFFER_LEN cfg"
  shows "fits cfg (snd (SetValue d k v c s))"
proof (cases "GetSection d s")
  case (Some i)
  then have i: "i < length (m_Sections d)"
    by (simp add: GetSection_def find_section_less)
  from Some have "GetKey d k s = map_option (Pair i) (find_key (Keys (m_Sections d ! i)) k)"
    by (simp add: GetKey_def split: option.splits)
  from fits_SetValue_key [OF ft len i this] Some show ?thesis
    by (simp add: SetValue_def)
next
  case None
  show ?thesis
  proof (cases "m_Flags d AND AUTOCREATE_SECTIONS = 0")
    case True
    with None ft show ?thesis by (simp add: SetValue_def)
  next
    case False
    let ?d1 = "d\<lparr>m_Sections := m_Sections d @ [new_t_Section\<lparr>szName := s, szSectionComment := []\<rparr>],
                   m_bDirty := True\<rparr>"
    from None have c: "CreateSection d s [] = (True, ?d1)"
      by (simp add: CreateSection_def)
    from fits_CreateSection [OF ft, where c = "[]" and n = s] s c
    have ft1: "fits cfg ?d1" by simp
    from None have g1: "GetSection ?d1 s = Some (length (m_Sections d))"
      by (simp add: GetSection_def find_section_snoc CompareNoCase_refl new_t_Section_def)
    from None have k0: "GetKey d k s = None" by (simp add: GetKey_def)
    have "fits cfg (snd (SetValue_key ?d1 None (Some (length (m_Sections d))) k v c))"
      by (rule fits_SetValue_key [OF ft1 len]) (simp_all add: new_t_Section_def)
    with None False c g1 k0 show ?thesis
      by (simp add: SetValue_def)
  qed
qed

lemma fits_CreateKey:
  assumes "fits cfg d"
    and "length (key_fmt cfg \<lparr>szKey = k, szValue = v, szComment = c\<rparr>) < MAX_BUFFER_LEN cfg"
    and "length ([CHR 0x0A] @ ''['' @ c_str s @ '']'') < MAX_BUFFER_LEN cfg"
  shows "fits cfg (snd (CreateKey d k v c s))"
proof -
  let ?d1 = "d\<lparr>m_Flags := m_Flags d OR AUTOCREATE_KEYS\<rparr>"
  from assms(1) have "fits cfg ?d1" by (simp add: fits_def)
  from fits_SetValue [OF this assms(2,3)]
  have "fits cfg (snd (SetValue ?d1 k v c s))" .
  then show ?thesis
    by (cases "SetValue ?d1 k v c s") (simp add: CreateKey_def Let_def fits_def)
qed

subsection \<open>The round trip\<close>

lemma flags_new:
  "m_Flags CDataFile_new AND AUTOCREATE_KEYS = AUTOCREATE_KEYS"
  "m_Flags CDataFile_new AND AUTOCREATE_SECTIONS = AUTOCREATE_SECTIONS"
  "m_Flags CDataFile_new OR AUTOCREATE_KEYS OR AUTOCREATE_SECTIONS = m_Flags CDataFile_new"
  "AUTOCREATE_KEYS \<noteq> 0"
  by (simp_all add: CDataFile_new_def AUTOCREATE_KEYS_def AUTOCREATE_SECTIONS_def)

lemma nocase_plain_name:
  "n \<noteq> [] \<Longrightarrow> CHR 0x00 \<notin> set n \<Longrightarrow> nocase n \<noteq> nocase []"
  by (simp add: nocase_def c_str_id)

text \<open>When the texts fit, \<^verbatim>\<open>Save\<close> writes each of them with a line feed after it,
  whatever lies behind the buffer.\<close>

lemma Save_keys_texts:
  "\<forall>k\<in>set ks. length (szKey k) > 0 \<longrightarrow> length (key_fmt cfg k) < MAX_BUFFER_LEN cfg \<Longrightarrow>
   Save_keys cfg behind ks File
     = File @ concat (map (\<lambda>t. t @ [CHR 0x0A])
                        (map (key_fmt cfg) (filter (\<lambda>Key. length (szKey Key) > 0) ks)))"
proof (induction ks arbitrary: File)
  case Nil
  then show ?case by simp
next
  case (Cons k ks)
  show ?case
  proof (cases "szKey k = []")
    case True
    with Cons show ?thesis by simp
  next
    case False
    with Cons show ?thesis
      by (simp add: Save_keys_Cons WriteLn_fits del: Save_keys.simps)
  qed
qed

lemma Save_sections_texts:
  "\<forall>s\<in>set ss. \<forall>t\<in>set (section_texts cfg s). length t < MAX_BUFFER_LEN cfg \<Longrightarrow>
   Save_sections cfg behind ss File
     = File @ concat (map (\<lambda>t. t @ [CHR 0x0A]) (concat (map (section_texts cfg) ss)))"
proof (induction ss arbitrary: File)
  case Nil
  then show ?case by simp
next
  case (Cons s ss)
  then have k: "\<forall>k\<in>set (Keys s). length (szKey k) > 0
                  \<longrightarrow> length (key_fmt cfg k) < MAX_BUFFER_LEN cfg"
    and t: "\<forall>t\<in>set (section_texts cfg s). length t < MAX_BUFFER_LEN cfg"
    and r: "\<forall>s\<in>set ss. \<forall>t\<in>set (section_texts cfg s). length t < MAX_BUFFER_LEN cfg"
    by (auto simp: section_texts_def)
  from t have c: "szSectionComment s \<noteq> [] \<Longrightarrow>
      WriteLn cfg behind F ([CHR 0x0A] @ c_str (CommentStr cfg (szSectionComment s)))
        = F @ ([CHR 0x0A] @ c_str (CommentStr cfg (szSectionComment s))) @ [CHR 0x0A]" for F
    by (intro WriteLn_fits) (auto simp: section_texts_def)
  from t have n: "szName s \<noteq> [] \<Longrightarrow>
      WriteLn cfg behind F
        ((if szSectionComment s \<noteq> [] then [] else [CHR 0x0A]) @ ''['' @ c_str (szName s) @ '']'')
        = F @ ((if szSectionComment s \<noteq> [] then [] else [CHR 0x0A])
               @ ''['' @ c_str (szName s) @ '']'') @ [CHR 0x0A]" for F
    by (intro WriteLn_fits) (auto simp: section_texts_def)
  show ?case
    using c n
    by (cases "szSectionComment s = []"; cases "szName s = []")
      (simp_all add: Let_def Cons.IH [OF r] Save_keys_texts [OF k] section_texts_def)
qed

text \<open>
  Claim C1, as the spec states it: for every object built through the public
  operations, saving it, loading the file into a new object and saving that gives the
  same file, and the same sections, keys, values and comments. \<^verbatim>\<open>CommentStr\<close> puts the
  comment indicator before the first line of a comment only. An object with one key
  \<^verbatim>\<open>k\<close> whose comment has the two lines \<^verbatim>\<open>a\<close> and \<^verbatim>\<open>b\<close> is saved with the line \<^verbatim>\<open>b\<close>
  on its own, which \<^verbatim>\<open>Load\<close> reads as a key \<^verbatim>\<open>b\<close>: the object read back has two keys,
  and saving it writes \<^verbatim>\<open>b=\<close> where the first file has \<^verbatim>\<open>b\<close>.
\<close>

theorem Save_Load_Save_counterexample:
  "(case Save default_config zero_memory (example_fs []) example_multiline of
      (ok1, d1, fs1) \<Rightarrow>
        (case Load default_config fs1 CDataFile_new ''f'' of
           Inl e \<Rightarrow> False
         | Inr (ok2, d2) \<Rightarrow>
             (case Save default_config zero_memory fs1 (SetFileName d2 ''f'') of
                (ok3, d3, fs3) \<Rightarrow>
                  ok1 \<and> ok2 \<and> ok3
                  \<and> KeyCount example_multiline = 1 \<and> KeyCount d2 = 2
                  \<and> contents fs1 ''f'' = Some ([CHR 0x0A] @ ''; a'' @ [CHR 0x0A] @ ''b''
                                            @ [CHR 0x0A] @ ''k=v'' @ [CHR 0x0A])
                  \<and> contents fs3 ''f'' = Some ([CHR 0x0A] @ ''; a'' @ [CHR 0x0A] @ ''b=''
                                            @ [CHR 0x0A] @ ''k=v'' @ [CHR 0x0A])
                  \<and> contents fs3 ''f'' \<noteq> contents fs1 ''f'')))"
  by (simp add: eval_defs example_multiline_def SetFileName_def Save_def SectionCount_def
      WriteLn_def CommentStr_def at0_def nth_append)

text \<open>
  Claim C1, amended: let the constants of the header satisfy \<open>cfg_ok\<close>, and let the
  object be plain: its default section comes first and has no comment; the other
  sections have non-empty names without NUL and line feed that differ up to case; the
  names of the keys of a section differ up to case; a key name is not empty, has no
  NUL, line feed or equal indicator, does not start or end with a trim character and
  does not start with a comment indicator or a bracket; a value has no NUL or line
  feed and does not end with a trim character; and every line of a comment, as
  \<^verbatim>\<open>CommentStr\<close> writes the comment, starts with a comment indicator, has no NUL and
  does not start or end with a trim character. Let the object fit the buffer: every
  text that \<^verbatim>\<open>Save\<close> formats in one call of \<^verbatim>\<open>WriteLn\<close> (the comment of a section
  after a line feed, the name of a section in brackets, after a line feed when the
  section has no comment, and a key with its value and, between line feeds, its
  comment before it) is shorter than \<^verbatim>\<open>MAX_BUFFER_LEN\<close>. Let the object have a file
  name, of a file that can be opened for writing. Then \<^verbatim>\<open>Save\<close> succeeds, whatever
  lies behind the buffer; \<^verbatim>\<open>Load\<close> of the file into a newly constructed object
  succeeds; the object read has the same sections, keys and values in the same order,
  each comment that is not empty replaced by a line feed and what \<^verbatim>\<open>CommentStr\<close>
  writes for it; and \<^verbatim>\<open>Save\<close> of the object read writes the same file again.
\<close>

theorem Save_Load_Save:
  assumes ok: "cfg_ok cfg" and pd: "plain_doc cfg d" and ft: "fits cfg d"
    and nm: "m_szFileName d \<noteq> []" and wr: "writable fs (c_str (m_szFileName d))"
  shows "\<exists>d1 fs1 d2 d3.
           Save cfg behind fs d = (True, d1, fs1)
           \<and> Load cfg fs1 CDataFile_new (m_szFileName d) = Inr (True, d2)
           \<and> m_Sections d2 = map (parsed_section cfg) (m_Sections d)
           \<and> Save cfg behind' fs1 (SetFileName d2 (m_szFileName d)) = (True, d3, fs1)"
proof -
  from pd obtain s0 ss where secs: "m_Sections d = s0 # ss"
    and s0: "szName s0 = []" "szSectionComment s0 = []"
    and k0: "\<forall>k\<in>set (Keys s0). plain_key cfg k" "distinct (map (\<lambda>k. nocase (szKey k)) (Keys s0))"
    and ps: "\<forall>s\<in>set ss. plain_section cfg s" "distinct (map (\<lambda>s. nocase (szName s)) ss)"
    by (auto simp: plain_doc_def plain_keys_def split: list.splits)
  from k0(1) have "\<forall>k\<in>set (Keys s0). szKey k \<noteq> []"
    by (simp add: plain_key_def)
  moreover from ft secs have "\<forall>t\<in>set (section_texts cfg s0). length t < MAX_BUFFER_LEN cfg"
    by (simp add: fits_def)
  ultimately have f0: "\<forall>k\<in>set (Keys s0). length (key_fmt cfg k) < MAX_BUFFER_LEN cfg"
    using section_texts_keys [of _ s0 cfg] by blast
  from ft secs have fr:
    "\<forall>s\<in>set ss. \<forall>t\<in>set (section_texts cfg s). length t < MAX_BUFFER_LEN cfg"
    by (simp add: fits_def)
  let ?File = "Save_sections cfg behind (m_Sections d) []"
  let ?fs1 = "fs\<lparr>contents := (contents fs)(c_str (m_szFileName d) \<mapsto> ?File)\<rparr>"
  let ?F0 = "Save_keys cfg behind (Keys s0) []"
  from nm wr secs have sv: "Save cfg behind fs d = (True, d\<lparr>m_bDirty := False\<rparr>, ?fs1)"
    by (simp add: Save_def SectionCount_def)
  from secs s0 have sr: "?File = Save_sections cfg behind ss ?F0"
    by (simp add: Let_def)
  let ?d0 = "CDataFile_new\<lparr>m_Flags := m_Flags CDataFile_new OR AUTOCREATE_KEYS OR AUTOCREATE_SECTIONS\<rparr>"
  have d0: "m_Sections ?d0 = [new_t_Section]" "m_szFileName ?d0 = []"
    "m_Flags ?d0 AND AUTOCREATE_KEYS \<noteq> 0"
    by (simp_all add: flags_new) (simp_all add: CDataFile_new_def)
  have inv0: "load_inv ?d0 0"
    using d0 by (simp add: load_inv_def CompareNoCase_refl)
  have nk0: "\<forall>k\<in>set (Keys s0). find_key (Keys (m_Sections ?d0 ! 0)) (szKey k) = None"
    by (simp add: d0 new_t_Section_def)
  from Load_loop_keys [OF ok k0 nk0 inv0 f0, of behind "[]"] obtain t0 where
    t0: "?F0 = t0"
      "\<And>rest. Load_loop cfg (t0 @ rest) (?d0, [], Some 0)
         = Load_loop cfg rest (put_keys ?d0 0 (map (parsed_key cfg) (Keys s0)), [], Some 0)"
    by auto
  let ?dA = "put_keys ?d0 0 (map (parsed_key cfg) (Keys s0))"
  have sA: "m_Sections ?dA = [parsed_section cfg s0]"
    using s0 by (simp add: put_keys_Sections d0 parsed_section_eq new_t_Section_def
        parsed_comment_def)
  have fA: "m_Flags ?dA AND AUTOCREATE_KEYS \<noteq> 0" "m_szFileName ?dA = []"
    using d0 by (simp_all add: put_keys_other)
  have nf: "\<forall>s\<in>set ss. find_section (m_Sections ?dA) (szName s) = None"
  proof
    fix s assume "s \<in> set ss"
    with ps(1) have "nocase (szName s) \<noteq> nocase []"
      by (intro nocase_plain_name) (auto simp: plain_section_def)
    then have "CompareNoCase [] (szName s) \<noteq> 0"
      by (simp add: CompareNoCase_nocase)
    with s0 show "find_section (m_Sections ?dA) (szName s) = None"
      by (simp add: sA parsed_section_simps)
  qed
  from Load_loop_sections [OF ok ps nf fA(1) fr, of behind ?F0] obtain t d' where
    t: "Save_sections cfg behind ss ?F0 = ?F0 @ t"
      "m_Sections d' = m_Sections ?dA @ map (parsed_section cfg) ss"
      "m_Flags d' = m_Flags ?dA" "m_szFileName d' = m_szFileName ?dA"
      "\<And>rest p. \<exists>p'. Load_loop cfg (t @ rest) (?dA, [], p) = Load_loop cfg rest (d', [], p')"
    by blast
  from t(5) [of "[]" "Some 0"] obtain p' where
    "Load_loop cfg t (?dA, [], Some 0) = Load_loop cfg [] (d', [], p')"
    by auto
  with t0(2) [of t] t(1) t0(1) sr have ll: "Load_loop cfg ?File (?d0, [], Some 0) = Inr d'"
    by (simp add: Load_loop_Nil)
  have g0: "GetSection CDataFile_new [] = Some 0"
    by (simp add: GetSection_def CDataFile_new_def new_t_Section_def CompareNoCase_refl)
  have fd: "m_Flags d' = m_Flags CDataFile_new"
    by (simp add: t(3) put_keys_other flags_new)
  have ld: "Load cfg ?fs1 CDataFile_new (m_szFileName d) = Inr (True, d')"
    using ll by (simp add: Load_def g0 flags_new Let_def)
  have s2: "m_Sections d' = map (parsed_section cfg) (m_Sections d)"
    by (simp add: t(2) sA secs)
  have sf: "SetFileName d' (m_szFileName d) = d'\<lparr>m_szFileName := m_szFileName d\<rparr>"
    by (simp add: SetFileName_def t(4) fA)
  have pl: "\<forall>s\<in>set (m_Sections d).
              plain_comment cfg (szSectionComment s) \<and> (\<forall>k\<in>set (Keys s). plain_key cfg k)"
    using s0 k0 ps(1) by (auto simp: secs plain_comment_Nil plain_section_def plain_keys_def)
  from ft have same: "Save_sections cfg behind' (m_Sections d) [] = ?File"
    by (simp add: fits_def Save_sections_texts)
  have "Save_sections cfg behind' (map (parsed_section cfg) (m_Sections d)) [] = ?File"
    using Save_sections_parsed [OF ok pl] same by simp
  then have "Save cfg behind' ?fs1 (SetFileName d' (m_szFileName d))
               = (True, d'\<lparr>m_szFileName := m_szFileName d, m_bDirty := False\<rparr>, ?fs1)"
    using nm wr by (simp add: Save_def sf s2 secs SectionCount_def)
  with sv ld s2 show ?thesis by blast
qed

lemma cfg_ok_default: "cfg_ok default_config"
  by (simp add: cfg_ok_def default_config_def szTrimChars_def at0_def)

lemma plain_doc_example: "plain_doc default_config example_plain"
  by code_simp

lemma fits_example: "fits default_config example_plain"
  by code_simp

lemma Save_example:
  "Save default_config zero_memory (example_fs []) example_plain
     = (True, example_plain\<lparr>m_bDirty := False\<rparr>, example_fs example_plain_text)"
proof -
  have "Save_sections default_config zero_memory (m_Sections example_plain) [] = example_plain_text"
    by (simp add: example_plain_def example_plain_text_def default_config_def WriteLn_def
        CommentStr_def Trim_def c_str_def at0_def to_int_def find_last_of_def
        find_last_not_of_def erase_in_range_def Let_def nth_append)
  then show ?thesis
    by (simp add: Save_def SectionCount_def example_fs_def) (simp add: example_plain_def c_str_def)
qed

theorem Save_Load_Save_witness:
  "\<exists>d2 d3. Load default_config (example_fs example_plain_text) CDataFile_new ''f'' = Inr (True, d2)
     \<and> m_Sections d2 = map (parsed_section default_config) (m_Sections example_plain)
     \<and> Save default_config zero_memory (example_fs example_plain_text) (SetFileName d2 ''f'')
         = (True, d3, example_fs example_plain_text)"
proof -
  have nm: "m_szFileName example_plain \<noteq> []"
    by (simp add: example_plain_def)
  have wr: "writable (example_fs []) (c_str (m_szFileName example_plain))"
    by (simp add: example_fs_def)
  from Save_Load_Save [OF cfg_ok_default plain_doc_example fits_example nm wr,
      of zero_memory zero_memory]
  show ?thesis
    by (simp add: Save_example) (simp add: example_plain_def)
qed

subsection \<open>A value that does not fit\<close>

text \<open>
  The bound on the lengths is needed. An object with one key \<^verbatim>\<open>k\<close> whose value has
  600 bytes is plain and does not fit. \<^verbatim>\<open>WriteLn\<close> stores the first 511 bytes of
  the text and a NUL in its buffer and writes 602 bytes, from the 513th on what lies
  behind the buffer, and \<^verbatim>\<open>Save\<close> returns \<^verbatim>\<open>true\<close>. \<^verbatim>\<open>Load\<close> reads the first 511
  bytes of the file as a line, finds the buffer full and stops: the key comes back
  with the first 509 bytes of its value.
\<close>

lemma getline_full:
  "CHR 0x0A \<notin> set l \<Longrightarrow> Suc (length l) = n \<Longrightarrow> c \<noteq> CHR 0x0A \<Longrightarrow>
   getline n (l @ c # rest) = (l, c # rest, True)"
proof (induction l arbitrary: n)
  case Nil
  then show ?case by simp
next
  case (Cons a l)
  then have "getline (n - 1) (l @ c # rest) = (l, c # rest, True)"
    by (intro Cons.IH) auto
  with Cons.prems show ?case by auto
qed

lemma WriteLn_long:
  assumes "MAX_BUFFER_LEN cfg \<le> length x" "0 < MAX_BUFFER_LEN cfg"
  shows "\<exists>X. WriteLn cfg behind File x
           = File @ take (MAX_BUFFER_LEN cfg - 1) x @ CHR 0x00 # X"
proof -
  let ?n = "MAX_BUFFER_LEN cfg"
  let ?r = "map (behind File) [0..<Suc (length x) - ?n]"
  from assms have l: "length (take (?n - 1) x) = ?n - 1" by simp
  with assms have "take (length x) (take (?n - 1) x @ replicate (?n - length (take (?n - 1) x)) (CHR 0x00) @ ?r)
      = take (?n - 1) x @ CHR 0x00 # take (length x - ?n) ?r"
    by (simp add: min_def Suc_diff_le)
  then show ?thesis
    by (simp add: WriteLn_def Let_def)
qed

lemma example_long_plain:
  "plain_doc default_config example_long" "\<not> fits default_config example_long"
  by (simp_all add: example_long_def plain_doc_def new_t_Section_def plain_keys_def
      plain_key_def default_config_def szTrimChars_def plain_comment_def fits_def
      section_texts_def key_fmt_def c_str_def takeWhile_replicate)

lemma plain_long: "plain_key default_config \<lparr>szKey = ''k'', szValue = replicate 509 (CHR ''v''), szComment = ''''\<rparr>"
  by (simp add: plain_key_def default_config_def szTrimChars_def plain_comment_def)

lemma Save_Load_long_value:
  "\<exists>d1 fs1 d2. Save default_config behind (example_fs []) example_long = (True, d1, fs1)
     \<and> Load default_config fs1 CDataFile_new ''f'' = Inr (True, d2)
     \<and> map szValue (Keys (m_Sections d2 ! 0)) = [replicate 509 (CHR ''v'')]"
proof -
  let ?cfg = default_config
  let ?k = "\<lparr>szKey = ''k'', szValue = replicate 509 (CHR ''v''), szComment = ''''\<rparr>"
  let ?l = "''k='' @ replicate 509 (CHR ''v'')"
  let ?File = "Save_sections ?cfg behind (m_Sections example_long) []"
  let ?fs1 = "(example_fs [])\<lparr>contents := (contents (example_fs []))(''f'' \<mapsto> ?File)\<rparr>"
  have sv: "Save ?cfg behind (example_fs []) example_long
              = (True, example_long\<lparr>m_bDirty := False\<rparr>, ?fs1)"
    by (simp add: Save_def SectionCount_def example_long_def example_fs_def c_str_def)
  have "?File = WriteLn ?cfg behind [] (''k='' @ replicate 600 (CHR ''v''))"
    by (simp add: example_long_def new_t_Section_def CommentStr_Nil c_str_def at0_def
        default_config_def)
  moreover have "take (MAX_BUFFER_LEN ?cfg - 1) (''k='' @ replicate 600 (CHR ''v'')) = ?l"
    by (simp add: default_config_def take_Cons')
  ultimately obtain X where F: "?File = ?l @ CHR 0x00 # X"
    using WriteLn_long [of ?cfg "''k='' @ replicate 600 (CHR ''v'')" behind "[]"]
    by (auto simp: default_config_def)
  have g: "getline (MAX_BUFFER_LEN ?cfg) ?File = (?l, CHR 0x00 # X, True)"
    unfolding F by (rule getline_full) (simp_all add: default_config_def)
  let ?d0 = "CDataFile_new\<lparr>m_Flags := m_Flags CDataFile_new OR AUTOCREATE_KEYS OR AUTOCREATE_SECTIONS\<rparr>"
  have d0: "m_Sections ?d0 = [new_t_Section]" "m_Flags ?d0 AND AUTOCREATE_KEYS \<noteq> 0"
    by (simp_all add: flags_new) (simp_all add: CDataFile_new_def)
  have inv0: "load_inv ?d0 0"
    using d0 by (simp add: load_inv_def CompareNoCase_refl)
  have nk0: "find_key (Keys (m_Sections ?d0 ! 0)) (szKey ?k) = None"
    by (simp add: CDataFile_new_def new_t_Section_def)
  have c: "c_str ?l = ?l"
    by (rule c_str_id) simp
  have "at0 (EqualIndicators ?cfg) = CHR ''=''"
    by (simp add: default_config_def at0_def)
  with Load_line_key [OF cfg_ok_default plain_long inv0 nk0, of "[]"]
  have ll: "Load_line ?cfg (Trim ?cfg ?l) (?d0, [], Some 0) = Inr (put_key ?d0 0 ?k, [], Some 0)"
    by simp
  from c ll have "Load_line ?cfg (Trim ?cfg (c_str ?l)) (?d0, [], Some 0)
                    = Inr (put_key ?d0 0 ?k, [], Some 0)"
    by (simp only:)
  with g have "Load_loop ?cfg ?File (?d0, [], Some 0) = Inr (put_key ?d0 0 ?k)"
    by (simp only: Load_loop.simps [of ?cfg ?File] prod.case sum.case if_True fst_conv)
  moreover have g0: "GetSection CDataFile_new [] = Some 0"
    by (simp add: GetSection_def CDataFile_new_def new_t_Section_def CompareNoCase_refl)
  ultimately have ld: "Load ?cfg ?fs1 CDataFile_new ''f'' = Inr (True, put_key ?d0 0 ?k)"
    by (simp add: Load_def Let_def flags_new c_str_def put_key_def)
  have "map szValue (Keys (m_Sections (put_key ?d0 0 ?k) ! 0)) = [replicate 509 (CHR ''v'')]"
    by (simp add: put_key_def CDataFile_new_def new_t_Section_def)
  with sv ld show ?thesis
    by (intro exI conjI) assumption+
qed

end
